theory Spec2Isabelle
  imports Main
begin

section \<open>The primality tester of \<^verbatim>\<open>prime_numbers.py\<close>\<close>

text \<open>
  The program is
  \<^verbatim>\<open>
  def is_prime(n):
      if n <= 1:
          return False
      for i in range(2, int(n**0.5) + 1):
          if n % i == 0:
              return False
      return True

  if __name__ == "__main__":
      primes = [n for n in range(1, 101) if is_prime(n)]
      print(f"Numerele prime ... la 100 sunt: {primes}")
  \<close>
  Python integers are unbounded and are modelled by \<open>int\<close>. The only arithmetic that
  leaves the integers is \<^verbatim>\<open>n**0.5\<close>: the integer is converted to a double, raised to
  the power one half by the C library, and the result truncated by \<^verbatim>\<open>int(...)\<close>.
  The steps of the interpreter are modelled on exact integers, the library's step is a
  parameter, and each exception the interpreter can raise on the way is a value of
  \<open>py_error\<close>.
\<close>

subsection \<open>Exceptions and numbers\<close>

datatype py_error = OverflowError | TypeError | ZeroDivisionError | NameError

text \<open>
  A finite double as mantissa and binary exponent: \<open>PyFloat m e\<close> stands for
  \<open>m * 2 ^ e\<close>. The doubles met here have a mantissa of at most 53 bits (or \<open>2 ^ 53\<close>
  itself, right after a rounding that carried).
\<close>

datatype pyfloat = PyFloat (mant: int) (expo: int)

text \<open>
  The value of \<^verbatim>\<open>n**0.5\<close> is a float for \<open>n \<ge> 0\<close> and a complex number for
  \<open>n < 0\<close>. Nothing but its type is ever asked of the complex number.
\<close>

datatype py_num = PyReal pyfloat | PyComplex

subsection \<open>Integer to double\<close>

text \<open>\<^verbatim>\<open>int.bit_length\<close>: the number of bits of the absolute value.\<close>

function bit_length :: "int \<Rightarrow> nat" where
  "bit_length n = (if n = 0 then 0 else bit_length (\<bar>n\<bar> div 2) + 1)"
  by pat_completeness auto
termination
  by (relation "measure (\<lambda>n. nat \<bar>n\<bar>)") auto

declare bit_length.simps [simp del]

text \<open>
  \<open>a / 2 ^ s\<close> for \<open>a \<ge> 0\<close>, rounded to the nearest integer, a tie going to the even
  one.
\<close>

definition round_half_even :: "int \<Rightarrow> nat \<Rightarrow> int" where
  "round_half_even a s =
     (let q = a div 2 ^ s; r = a mod 2 ^ s
      in if 2 ^ s < 2 * r \<or> (2 * r = 2 ^ s \<and> odd q) then q + 1 else q)"

text \<open>
  The conversion of the interpreter (\<^verbatim>\<open>PyLong_AsDouble\<close>): an integer of at most 53
  bits is kept as it is; the absolute value of a longer one is rounded to 53 bits, half
  to even; when the rounded value needs more than 1024 bits (\<^verbatim>\<open>DBL_MAX_EXP\<close>) the
  conversion raises \<^verbatim>\<open>OverflowError: int too large to convert to float\<close>.
\<close>

definition float_of_int :: "int \<Rightarrow> py_error + pyfloat" where
  "float_of_int n =
     (let b = bit_length n
      in if b \<le> 53 then Inr (PyFloat n 0)
         else
           let s = b - 53;
               m = round_half_even \<bar>n\<bar> s;
               b' = (if m = 2 ^ 53 then b + 1 else b)
           in if 1024 < b' then Inl OverflowError
              else Inr (PyFloat (sgn n * m) (int s)))"

subsection \<open>The power one half\<close>

text \<open>
  \<^verbatim>\<open>x ** 0.5\<close> on a double: a negative base with a fractional exponent gives a
  complex number; otherwise the interpreter calls \<^verbatim>\<open>pow(x, 0.5)\<close> of the C
  library. Which double that call returns is the library's business (C does not ask
  \<^verbatim>\<open>pow\<close> to be correctly rounded, and the libraries in use are not), so the
  library's function on the doubles that are not negative is a parameter \<open>libm\<close> of
  the model.
\<close>

definition float_pow_half_with :: "(pyfloat \<Rightarrow> pyfloat) \<Rightarrow> pyfloat \<Rightarrow> py_num" where
  "float_pow_half_with libm x =
     (case x of PyFloat m e \<Rightarrow> if m < 0 then PyComplex else PyReal (libm x))"

text \<open>
  \<^verbatim>\<open>n ** 0.5\<close> for an integer \<open>n\<close>: the integer is converted first, which may
  raise.
\<close>

definition py_pow_half_with :: "(pyfloat \<Rightarrow> pyfloat) \<Rightarrow> int \<Rightarrow> py_error + py_num" where
  "py_pow_half_with libm n =
     (case float_of_int n of
        Inl err \<Rightarrow> Inl err
      | Inr x \<Rightarrow> Inr (float_pow_half_with libm x))"

subsection \<open>Double to integer\<close>

text \<open>Truncation towards zero.\<close>

definition float_trunc :: "pyfloat \<Rightarrow> int" where
  "float_trunc x =
     (case x of PyFloat m e \<Rightarrow>
        if 0 \<le> e then m * 2 ^ nat e else sgn m * (\<bar>m\<bar> div 2 ^ nat (- e)))"

text \<open>\<^verbatim>\<open>int(v)\<close>: a float is truncated, a complex number raises \<^verbatim>\<open>TypeError\<close>.\<close>

definition py_int :: "py_num \<Rightarrow> py_error + int" where
  "py_int v = (case v of PyReal x \<Rightarrow> Inr (float_trunc x) | PyComplex \<Rightarrow> Inl TypeError)"

subsection \<open>The loop and the function\<close>

text \<open>\<^verbatim>\<open>n % i\<close>: the remainder has the sign of the divisor, as \<open>mod\<close> on \<open>int\<close> has.\<close>

definition py_mod :: "int \<Rightarrow> int \<Rightarrow> py_error + int" where
  "py_mod n i = (if i = 0 then Inl ZeroDivisionError else Inr (n mod i))"

text \<open>
  \<^verbatim>\<open>for i in range(i, stop): if n % i == 0: return False\<close> followed by
  \<^verbatim>\<open>return True\<close>. The distance to \<open>stop\<close> decreases with every iteration.
\<close>

function for_loop :: "int \<Rightarrow> int \<Rightarrow> int \<Rightarrow> py_error + bool" where
  "for_loop n i stop =
     (if i < stop then
        (case py_mod n i of
           Inl err \<Rightarrow> Inl err
         | Inr r \<Rightarrow> if r = 0 then Inr False else for_loop n (i + 1) stop)
      else Inr True)"
  by pat_completeness auto
termination
  by (relation "measure (\<lambda>(n, i, stop). nat (stop - i))") auto

declare for_loop.simps [simp del]

text \<open>\<^verbatim>\<open>int(n**0.5)\<close>.\<close>

definition int_pow_half_with :: "(pyfloat \<Rightarrow> pyfloat) \<Rightarrow> int \<Rightarrow> py_error + int" where
  "int_pow_half_with libm n =
     (case py_pow_half_with libm n of
        Inl err \<Rightarrow> Inl err
      | Inr v \<Rightarrow> py_int v)"

text \<open>The function, on a platform whose library is \<open>libm\<close>.\<close>

definition is_prime_with :: "(pyfloat \<Rightarrow> pyfloat) \<Rightarrow> int \<Rightarrow> py_error + bool" where
  "is_prime_with libm n =
     (if n \<le> 1 then Inr False
      else
        (case int_pow_half_with libm n of
           Inl err \<Rightarrow> Inl err
         | Inr r \<Rightarrow> for_loop n 2 (r + 1)))"

subsection \<open>A library that rounds to nearest\<close>

text \<open>The integer square root, two bits of the argument for each bit of the root.\<close>

function isqrt :: "int \<Rightarrow> int" where
  "isqrt n =
     (if n \<le> 0 then 0
      else let r = 2 * isqrt (n div 4)
           in if (r + 1) * (r + 1) \<le> n then r + 1 else r)"
  by pat_completeness auto
termination
  by (relation "measure nat") auto

declare isqrt.simps [simp del]

text \<open>
  The square root of \<open>x \<ge> 0\<close> as a double, rounded to nearest. With \<open>L\<close> the bit
  length of the integer root, the 53 bits of the mantissa end at \<open>2 ^ (L - 53)\<close>.
  For \<open>L \<le> 53\<close> the mantissa is the root of \<open>x * 4 ^ (53 - L)\<close>, rounded up when the
  argument is beyond \<open>(R + 1/2)\<^sup>2 = R\<^sup>2 + R + 1/4\<close>; a square root is never half way
  between two mantissas there. For \<open>L > 53\<close> the low \<open>L - 53\<close> bits of the root are
  rounded away, half to even. A mantissa that the rounding has carried to \<open>2 ^ 53\<close> is
  written as \<open>2 ^ 52\<close> with the next exponent.
\<close>

definition sqrt_round :: "int \<Rightarrow> pyfloat" where
  "sqrt_round x =
     (let L = bit_length (isqrt x)
      in if L \<le> 53 then
           let t = 53 - L; N = x * 4 ^ t; R = isqrt N;
               M = (if R * R + R < N then R + 1 else R)
           in if M = 2 ^ 53 then PyFloat (2 ^ 52) (1 - int t) else PyFloat M (- int t)
         else
           let d = L - 53; R = isqrt (x div 4 ^ d);
               mid = (2 * R + 1) * (2 * R + 1) * 4 ^ (d - 1);
               M = (if mid < x \<or> (x = mid \<and> odd R) then R + 1 else R)
           in if M = 2 ^ 53 then PyFloat (2 ^ 52) (int d + 1) else PyFloat M (int d))"

text \<open>
  The best library there can be: \<open>pow(x, 0.5)\<close> as the correctly rounded square root.
  An odd exponent is made even by doubling the mantissa, and half of the exponent goes
  to the result. The libraries in use differ from it in the last bit of the mantissa
  for some arguments.
\<close>

definition pow_half_nearest :: "pyfloat \<Rightarrow> pyfloat" where
  "pow_half_nearest x =
     (case x of PyFloat m e \<Rightarrow>
        (case sqrt_round (if even e then m else 2 * m) of
           PyFloat M E \<Rightarrow> PyFloat M (E + e div 2)))"

text \<open>
  \<^verbatim>\<open>int(n**0.5)\<close> and the function with that library. Where a root lies next
  to an integer, the truncated root of this library and that of a library in use can
  differ by one. Below \<open>2 ^ 106\<close> that changes nothing in what the function returns:
  it returns the same with every library that is accurate in the sense defined next
  (lemma \<open>is_prime_with_agrees\<close>).
\<close>

definition int_pow_half :: "int \<Rightarrow> py_error + int" where
  "int_pow_half n = int_pow_half_with pow_half_nearest n"

definition is_prime :: "int \<Rightarrow> py_error + bool" where
  "is_prime n = is_prime_with pow_half_nearest n"

text \<open>
  How far a library may be from the square root. For a double \<open>y = M * 2 ^ E\<close> with
  a mantissa of 53 bits, \<open>2 ^ E\<close> is one unit in the last place; \<open>root_within X y\<close>
  says that \<open>y\<close> is at most 5/8 of that unit away from the square root of \<open>X\<close>, that
  is \<open>(8 M - 5)\<^sup>2 * 4 ^ E \<le> 64 X \<le> (8 M + 5)\<^sup>2 * 4 ^ E\<close>, written without fractions.
  A library is accurate when this holds for every double that holds a positive integer
  up to \<open>2 ^ 106\<close>.
\<close>

definition root_within :: "int \<Rightarrow> pyfloat \<Rightarrow> bool" where
  "root_within X y =
     (case y of PyFloat M E \<Rightarrow>
        2 ^ 52 \<le> M \<and> M < 2 ^ 53 \<and>
        (if 0 \<le> E then
           (8 * M - 5) * (8 * M - 5) * 4 ^ nat E \<le> 64 * X \<and>
           64 * X \<le> (8 * M + 5) * (8 * M + 5) * 4 ^ nat E
         else
           (8 * M - 5) * (8 * M - 5) \<le> 64 * X * 4 ^ nat (- E) \<and>
           64 * X * 4 ^ nat (- E) \<le> (8 * M + 5) * (8 * M + 5)))"

definition pow_half_accurate :: "(pyfloat \<Rightarrow> pyfloat) \<Rightarrow> bool" where
  "pow_half_accurate libm \<longleftrightarrow>
     (\<forall>m e. 0 < m \<and> 0 \<le> e \<and> m * 2 ^ nat e \<le> 2 ^ 106 \<longrightarrow>
        root_within (m * 2 ^ nat e) (libm (PyFloat m e)))"

text \<open>
  The number of times the body of the loop runs, counted along the same loop.
\<close>

function for_loop_iterations :: "int \<Rightarrow> int \<Rightarrow> int \<Rightarrow> nat" where
  "for_loop_iterations n i stop =
     (if i < stop then
        (case py_mod n i of
           Inl err \<Rightarrow> 1
         | Inr r \<Rightarrow> if r = 0 then 1 else 1 + for_loop_iterations n (i + 1) stop)
      else 0)"
  by pat_completeness auto
termination
  by (relation "measure (\<lambda>(n, i, stop). nat (stop - i))") auto

declare for_loop_iterations.simps [simp del]

subsection \<open>The main program\<close>

text \<open>\<^verbatim>\<open>range(a, b)\<close>, as the list of its elements.\<close>

definition py_range :: "int \<Rightarrow> int \<Rightarrow> int list" where
  "py_range a b = [a..b - 1]"

text \<open>
  \<^verbatim>\<open>[x for x in xs if p(x)]\<close>: the elements are tested from left to right, and an
  exception raised by a test ends the comprehension.
\<close>

fun list_comp :: "(int \<Rightarrow> py_error + bool) \<Rightarrow> int list \<Rightarrow> py_error + int list" where
  "list_comp p [] = Inr []"
| "list_comp p (x # xs) =
     (case p x of
        Inl err \<Rightarrow> Inl err
      | Inr b \<Rightarrow>
          (case list_comp p xs of
             Inl err \<Rightarrow> Inl err
           | Inr ys \<Rightarrow> Inr (if b then x # ys else ys)))"

definition primes :: "py_error + int list" where
  "primes = list_comp is_prime (py_range 1 101)"

text \<open>The decimal digits of an integer that is not negative.\<close>

definition digit_char :: "int \<Rightarrow> char" where
  "digit_char d = ''0123456789'' ! nat d"

function digits :: "int \<Rightarrow> string" where
  "digits n = (if n < 10 then [digit_char n] else digits (n div 10) @ [digit_char (n mod 10)])"
  by pat_completeness auto
termination
  by (relation "measure nat") auto

declare digits.simps [simp del]

text \<open>\<^verbatim>\<open>repr\<close> of an integer and of a list of integers; \<^verbatim>\<open>sep.join(xs)\<close>.\<close>

definition py_repr_int :: "int \<Rightarrow> string" where
  "py_repr_int n = (if n < 0 then CHR ''-'' # digits (- n) else digits n)"

fun str_join :: "string \<Rightarrow> string list \<Rightarrow> string" where
  "str_join sep [] = []"
| "str_join sep [x] = x"
| "str_join sep (x # y # ys) = x @ sep @ str_join sep (y # ys)"

definition py_repr_list :: "int list \<Rightarrow> string" where
  "py_repr_list xs = ''['' @ str_join '', '' (map py_repr_int xs) @ '']''"

text \<open>
  What the process has written to its standard output, as bytes. \<^verbatim>\<open>print(s)\<close>
  writes \<open>s\<close> and a line feed.
\<close>

record world =
  stdout :: string

definition py_print :: "string \<Rightarrow> world \<Rightarrow> world" where
  "py_print s w = w\<lparr>stdout := stdout w @ s @ [CHR 0x0A]\<rparr>"

text \<open>
  The text before the list in the f-string, in the UTF-8 bytes of the source file: the
  two letters of \<^verbatim>\<open>p..n..\<close> that are not ASCII are \<open>C3 A2\<close> (a with circumflex) and
  \<open>C4 83\<close> (a with breve).
\<close>

definition label :: string where
  "label = ''Numerele prime p'' @ [CHR 0xC3, CHR 0xA2] @ ''n'' @ [CHR 0xC4, CHR 0x83]
     @ '' la 100 sunt: ''"

text \<open>The body of \<^verbatim>\<open>if __name__ == "__main__":\<close>.\<close>

definition main :: "world \<Rightarrow> py_error + world" where
  "main w =
     (case primes of
        Inl err \<Rightarrow> Inl err
      | Inr ps \<Rightarrow> Inr (py_print (label @ py_repr_list ps) w))"

subsection \<open>The text of the function and what running it means\<close>

text \<open>
  To say what a call of \<^verbatim>\<open>is_prime\<close> can depend on, the body of the function is
  also kept as a syntax tree and run by an interpreter that has the two name spaces a
  call sees: the local names of the call and the names of the module. The values are
  the ones this function can meet: \<^verbatim>\<open>None\<close>, integers, booleans, the value of
  \<^verbatim>\<open>n ** 0.5\<close>, and the range of the loop.
\<close>

datatype py_val = VNone | VInt int | VBool bool | VNum py_num | VRange int int

text \<open>
  A step of the interpreter gives a value, raises, or leaves the part of Python that
  is modelled (arithmetic on floats, a call of a name that the module has rebound).
\<close>

datatype 'a result = Ok 'a | Raises py_error | Unmodelled

datatype expr =
    Name string
  | Const py_val
  | LtE expr expr
  | Eq expr expr
  | Add expr expr
  | Mod expr expr
  | Pow expr expr
  | Call1 string expr
  | Call2 string expr expr

datatype stmt =
    If expr "stmt list"
  | Return expr
  | For string expr "stmt list"

text \<open>A boolean counts as the integer 0 or 1 in arithmetic and comparisons.\<close>

fun as_int :: "py_val \<Rightarrow> int option" where
  "as_int (VInt i) = Some i"
| "as_int (VBool b) = Some (if b then 1 else 0)"
| "as_int v = None"

definition on_ints :: "(int \<Rightarrow> int \<Rightarrow> py_val result) \<Rightarrow> py_val result \<Rightarrow> py_val result \<Rightarrow> py_val result" where
  "on_ints f a b =
     (case a of
        Ok u \<Rightarrow>
          (case b of
             Ok v \<Rightarrow>
               (case (as_int u, as_int v) of
                  (Some i, Some j) \<Rightarrow> f i j
                | _ \<Rightarrow> Unmodelled)
           | Raises err \<Rightarrow> Raises err
           | Unmodelled \<Rightarrow> Unmodelled)
      | Raises err \<Rightarrow> Raises err
      | Unmodelled \<Rightarrow> Unmodelled)"

text \<open>
  \<^verbatim>\<open>a ** b\<close> is modelled where the function uses it: an integer to the power
  \<^verbatim>\<open>0.5\<close>, the double with mantissa 1 and exponent \<open>-1\<close>.
\<close>

definition pow_op :: "(pyfloat \<Rightarrow> pyfloat) \<Rightarrow> py_val result \<Rightarrow> py_val result \<Rightarrow> py_val result" where
  "pow_op libm a b =
     (case a of
        Ok u \<Rightarrow>
          (case b of
             Ok v \<Rightarrow>
               (case as_int u of
                  Some i \<Rightarrow>
                    if v = VNum (PyReal (PyFloat 1 (- 1))) then
                      (case py_pow_half_with libm i of
                         Inl err \<Rightarrow> Raises err
                       | Inr w \<Rightarrow> Ok (VNum w))
                    else Unmodelled
                | None \<Rightarrow> Unmodelled)
           | Raises err \<Rightarrow> Raises err
           | Unmodelled \<Rightarrow> Unmodelled)
      | Raises err \<Rightarrow> Raises err
      | Unmodelled \<Rightarrow> Unmodelled)"

text \<open>The builtins \<^verbatim>\<open>int\<close> of one argument and \<^verbatim>\<open>range\<close> of two.\<close>

definition builtin1 :: "string \<Rightarrow> py_val result \<Rightarrow> py_val result" where
  "builtin1 f a =
     (if f = ''int'' then
        (case a of
           Ok u \<Rightarrow>
             (case u of
                VNum w \<Rightarrow> (case py_int w of Inl err \<Rightarrow> Raises err | Inr i \<Rightarrow> Ok (VInt i))
              | VInt i \<Rightarrow> Ok (VInt i)
              | VBool b \<Rightarrow> Ok (VInt (if b then 1 else 0))
              | _ \<Rightarrow> Raises TypeError)
         | Raises err \<Rightarrow> Raises err
         | Unmodelled \<Rightarrow> Unmodelled)
      else Unmodelled)"

definition builtin2 :: "string \<Rightarrow> py_val result \<Rightarrow> py_val result \<Rightarrow> py_val result" where
  "builtin2 f a b =
     (if f = ''range'' then on_ints (\<lambda>i j. Ok (VRange i j)) a b else Unmodelled)"

text \<open>
  Expressions, with the local names \<open>l\<close> and the names of the module \<open>g\<close>. A name
  is looked up in the call first and in the module next; a name that is called is a
  builtin only as long as neither binds it.
\<close>

fun eval_expr :: "(pyfloat \<Rightarrow> pyfloat) \<Rightarrow> (string \<rightharpoonup> py_val) \<Rightarrow> (string \<rightharpoonup> py_val) \<Rightarrow> expr
    \<Rightarrow> py_val result" where
  "eval_expr libm g l (Name x) =
     (case l x of
        Some v \<Rightarrow> Ok v
      | None \<Rightarrow> (case g x of Some v \<Rightarrow> Ok v | None \<Rightarrow> Raises NameError))"
| "eval_expr libm g l (Const v) = Ok v"
| "eval_expr libm g l (LtE a b) =
     on_ints (\<lambda>i j. Ok (VBool (i \<le> j))) (eval_expr libm g l a) (eval_expr libm g l b)"
| "eval_expr libm g l (Eq a b) =
     on_ints (\<lambda>i j. Ok (VBool (i = j))) (eval_expr libm g l a) (eval_expr libm g l b)"
| "eval_expr libm g l (Add a b) =
     on_ints (\<lambda>i j. Ok (VInt (i + j))) (eval_expr libm g l a) (eval_expr libm g l b)"
| "eval_expr libm g l (Mod a b) =
     on_ints (\<lambda>i j. case py_mod i j of Inl err \<Rightarrow> Raises err | Inr r \<Rightarrow> Ok (VInt r))
       (eval_expr libm g l a) (eval_expr libm g l b)"
| "eval_expr libm g l (Pow a b) = pow_op libm (eval_expr libm g l a) (eval_expr libm g l b)"
| "eval_expr libm g l (Call1 f a) =
     (if l f = None \<and> g f = None then builtin1 f (eval_expr libm g l a) else Unmodelled)"
| "eval_expr libm g l (Call2 f a b) =
     (if l f = None \<and> g f = None
      then builtin2 f (eval_expr libm g l a) (eval_expr libm g l b) else Unmodelled)"

text \<open>
  Statements. A block ends by falling through with the local names it has reached, by
  \<^verbatim>\<open>return\<close>, by an exception, or outside the model.
\<close>

datatype flow = Next "string \<rightharpoonup> py_val" | Returned py_val | Raised py_error | Outside

definition truth :: "py_val \<Rightarrow> bool option" where
  "truth v = (case v of VBool b \<Rightarrow> Some b | VInt i \<Rightarrow> Some (i \<noteq> 0) | VNone \<Rightarrow> Some False
     | _ \<Rightarrow> None)"

fun exec_stmt :: "(pyfloat \<Rightarrow> pyfloat) \<Rightarrow> (string \<rightharpoonup> py_val) \<Rightarrow> stmt \<Rightarrow> (string \<rightharpoonup> py_val) \<Rightarrow> flow"
  and exec_block :: "(pyfloat \<Rightarrow> pyfloat) \<Rightarrow> (string \<rightharpoonup> py_val) \<Rightarrow> stmt list \<Rightarrow> (string \<rightharpoonup> py_val) \<Rightarrow> flow"
  and exec_for :: "(pyfloat \<Rightarrow> pyfloat) \<Rightarrow> (string \<rightharpoonup> py_val) \<Rightarrow> string \<Rightarrow> stmt list \<Rightarrow> int list
    \<Rightarrow> (string \<rightharpoonup> py_val) \<Rightarrow> flow" where
  "exec_stmt libm g (Return e) l =
     (case eval_expr libm g l e of
        Ok v \<Rightarrow> Returned v | Raises err \<Rightarrow> Raised err | Unmodelled \<Rightarrow> Outside)"
| "exec_stmt libm g (If c body) l =
     (case eval_expr libm g l c of
        Ok v \<Rightarrow>
          (case truth v of
             Some b \<Rightarrow> if b then exec_block libm g body l else Next l
           | None \<Rightarrow> Outside)
      | Raises err \<Rightarrow> Raised err
      | Unmodelled \<Rightarrow> Outside)"
| "exec_stmt libm g (For x e body) l =
     (case eval_expr libm g l e of
        Ok v \<Rightarrow> (case v of VRange a b \<Rightarrow> exec_for libm g x body [a..b - 1] l | _ \<Rightarrow> Outside)
      | Raises err \<Rightarrow> Raised err
      | Unmodelled \<Rightarrow> Outside)"
| "exec_block libm g [] l = Next l"
| "exec_block libm g (s # ss) l =
     (case exec_stmt libm g s l of Next l' \<Rightarrow> exec_block libm g ss l' | other \<Rightarrow> other)"
| "exec_for libm g x body [] l = Next l"
| "exec_for libm g x body (i # is) l =
     (case exec_block libm g body (l(x \<mapsto> VInt i)) of
        Next l' \<Rightarrow> exec_for libm g x body is l'
      | other \<Rightarrow> other)"

text \<open>The body of \<^verbatim>\<open>is_prime\<close>, line by line.\<close>

definition is_prime_body :: "stmt list" where
  "is_prime_body =
     [If (LtE (Name ''n'') (Const (VInt 1))) [Return (Const (VBool False))],
      For ''i''
        (Call2 ''range'' (Const (VInt 2))
           (Add (Call1 ''int'' (Pow (Name ''n'') (Const (VNum (PyReal (PyFloat 1 (- 1)))))))
              (Const (VInt 1))))
        [If (Eq (Mod (Name ''n'') (Name ''i'')) (Const (VInt 0)))
           [Return (Const (VBool False))]],
      Return (Const (VBool True))]"

text \<open>
  A call \<^verbatim>\<open>is_prime(n)\<close> in a module whose names are \<open>g\<close>: the body runs with
  \<open>n\<close> as its only local name, and a body that falls through returns \<^verbatim>\<open>None\<close>.
\<close>

definition call_is_prime :: "(pyfloat \<Rightarrow> pyfloat) \<Rightarrow> (string \<rightharpoonup> py_val) \<Rightarrow> int \<Rightarrow> py_val result" where
  "call_is_prime libm g n =
     (case exec_block libm g is_prime_body [''n'' \<mapsto> VInt n] of
        Next l \<Rightarrow> Ok VNone
      | Returned v \<Rightarrow> Ok v
      | Raised err \<Rightarrow> Raises err
      | Outside \<Rightarrow> Unmodelled)"

text \<open>What the function of the model says, as a result of the interpreter.\<close>

definition as_result :: "py_error + bool \<Rightarrow> py_val result" where
  "as_result r = (case r of Inl err \<Rightarrow> Raises err | Inr b \<Rightarrow> Ok (VBool b))"

subsection \<open>The reference definition of a prime\<close>

text \<open>
  The glossary's words, not the code's: a prime number is an integer greater than 1 with
  no positive divisors other than 1 and itself.
\<close>

definition prime_number :: "int \<Rightarrow> bool" where
  "prime_number n \<longleftrightarrow> 1 < n \<and> (\<forall>d. 0 < d \<and> d dvd n \<longrightarrow> d = 1 \<or> d = n)"

subsection \<open>Powers modulo a number\<close>



section \<open>Auxiliary facts\<close>

subsection \<open>The loop tests every candidate of its range\<close>

lemma for_loop_all:
  "2 \<le> i \<Longrightarrow> for_loop n i stop = Inr (\<forall>j\<in>{i..<stop}. n mod j \<noteq> 0)"
proof (induction n i stop rule: for_loop.induct)
  case (1 n i stop)
  show ?case
  proof (cases "i < stop")
    case False
    then show ?thesis by (simp add: for_loop.simps)
  next
    case True
    have split: "{i..<stop} = insert i {i + 1..<stop}"
      using True by auto
    show ?thesis
    proof (cases "n mod i = 0")
      case True
      have "\<exists>j\<in>{i..<stop}. n mod j = 0"
        using True \<open>i < stop\<close> by (intro bexI [of _ i]) simp_all
      then have "\<not> (\<forall>j\<in>{i..<stop}. n mod j \<noteq> 0)" by simp
      with True \<open>i < stop\<close> "1.prems" show ?thesis
        by (subst for_loop.simps) (simp add: py_mod_def)
    next
      case False
      have "for_loop n (i + 1) stop = Inr (\<forall>j\<in>{i + 1..<stop}. n mod j \<noteq> 0)"
        using "1.IH" [of "n mod i"] True False "1.prems" by (simp add: py_mod_def)
      with True False "1.prems" show ?thesis
        by (subst for_loop.simps) (simp add: py_mod_def split)
    qed
  qed
qed

lemma for_loop_iterations_le: "for_loop_iterations n i stop \<le> nat (stop - i)"
proof (induction n i stop rule: for_loop_iterations.induct)
  case (1 n i stop)
  show ?case
  proof (cases "i < stop")
    case False
    then show ?thesis by (simp add: for_loop_iterations.simps)
  next
    case True
    show ?thesis
    proof (cases "i = 0 \<or> n mod i = 0")
      case True
      with \<open>i < stop\<close> show ?thesis
        by (subst for_loop_iterations.simps) (auto simp: py_mod_def)
    next
      case False
      then have "for_loop_iterations n (i + 1) stop \<le> nat (stop - (i + 1))"
        using "1.IH" [of "n mod i"] True by (simp add: py_mod_def)
      with True False show ?thesis
        by (subst for_loop_iterations.simps) (simp add: py_mod_def)
    qed
  qed
qed

subsection \<open>The integer square root and the bit length\<close>

lemma isqrt_bounds:
  "0 \<le> n \<Longrightarrow> 0 \<le> isqrt n \<and> isqrt n * isqrt n \<le> n \<and> n < (isqrt n + 1) * (isqrt n + 1)"
proof (induction n rule: isqrt.induct)
  case (1 n)
  show ?case
  proof (cases "n \<le> 0")
    case True
    with "1.prems" show ?thesis by (simp add: isqrt.simps)
  next
    case False
    define s where "s = isqrt (n div 4)"
    have ih: "0 \<le> s \<and> s * s \<le> n div 4 \<and> n div 4 < (s + 1) * (s + 1)"
      using "1.IH" False "1.prems" by (simp add: s_def)
    have lo: "4 * (s * s) \<le> n" using ih by linarith
    have "n div 4 + 1 \<le> s * s + 2 * s + 1" using ih by (simp add: algebra_simps)
    then have hi: "n < 4 * (s * s) + 8 * s + 4" by linarith
    have eq: "isqrt n = (if (2 * s + 1) * (2 * s + 1) \<le> n then 2 * s + 1 else 2 * s)"
      using False by (subst isqrt.simps) (simp add: s_def Let_def)
    show ?thesis
    proof (cases "(2 * s + 1) * (2 * s + 1) \<le> n")
      case True
      then show ?thesis using eq ih hi by (simp add: algebra_simps)
    next
      case False
      then show ?thesis using eq ih lo by (simp add: algebra_simps)
    qed
  qed
qed

lemma isqrt_ge: "0 \<le> k \<Longrightarrow> k * k \<le> n \<Longrightarrow> k \<le> isqrt n"
proof (rule ccontr)
  assume a: "0 \<le> k" "k * k \<le> n" "\<not> k \<le> isqrt n"
  have n0: "0 \<le> n" using a(1,2) by (meson mult_nonneg_nonneg order_trans)
  have "isqrt n + 1 \<le> k" using a(3) by simp
  moreover have "0 \<le> isqrt n" using isqrt_bounds [OF n0] by simp
  ultimately have "(isqrt n + 1) * (isqrt n + 1) \<le> k * k" by (intro mult_mono) auto
  with isqrt_bounds [OF n0] a(2) show False by linarith
qed

lemma isqrt_less: "0 \<le> n \<Longrightarrow> 0 \<le> k \<Longrightarrow> n < k * k \<Longrightarrow> isqrt n < k"
proof (rule ccontr)
  assume a: "0 \<le> n" "0 \<le> k" "n < k * k" "\<not> isqrt n < k"
  have "k * k \<le> isqrt n * isqrt n" using a(2,4) by (intro mult_mono) auto
  with isqrt_bounds [OF a(1)] a(3) show False by linarith
qed

lemma bit_length_bounds:
  "0 < n \<Longrightarrow> 2 ^ (bit_length n - 1) \<le> n \<and> n < 2 ^ bit_length n \<and> 0 < bit_length n"
proof (induction n rule: bit_length.induct)
  case (1 n)
  have eq: "bit_length n = bit_length (n div 2) + 1"
    using "1.prems" by (subst bit_length.simps) simp
  show ?case
  proof (cases "n div 2 = 0")
    case True
    then have "n = 1" using "1.prems" by linarith
    then show ?thesis using eq True by (simp add: bit_length.simps)
  next
    case False
    then have pos: "0 < n div 2" using "1.prems" by linarith
    have ih: "2 ^ (bit_length (n div 2) - 1) \<le> n div 2 \<and> n div 2 < 2 ^ bit_length (n div 2)
        \<and> 0 < bit_length (n div 2)"
      using "1.IH" "1.prems" pos by simp
    then obtain c where c: "bit_length (n div 2) = Suc c" by (cases "bit_length (n div 2)") auto
    show ?thesis using ih eq c by simp linarith
  qed
qed

lemma bit_length_le: "0 < n \<Longrightarrow> n < 2 ^ k \<Longrightarrow> bit_length n \<le> k"
proof -
  assume a: "0 < n" "n < 2 ^ k"
  have "(2::int) ^ (bit_length n - 1) < 2 ^ k"
    using bit_length_bounds [OF a(1)] a(2) by linarith
  then have "bit_length n - 1 < k" by (simp add: power_strict_increasing_iff)
  then show ?thesis by simp
qed

lemma bit_length_gt: "0 < n \<Longrightarrow> 2 ^ k \<le> n \<Longrightarrow> k < bit_length n"
proof -
  assume a: "0 < n" "2 ^ k \<le> n"
  have "(2::int) ^ k < 2 ^ bit_length n"
    using bit_length_bounds [OF a(1)] a(2) by linarith
  then show ?thesis by (simp add: power_strict_increasing_iff)
qed

subsection \<open>The conversion to a double and its overflow\<close>

lemma round_half_even_bounds:
  "a div 2 ^ s \<le> round_half_even a s \<and> round_half_even a s \<le> a div 2 ^ s + 1"
  by (simp add: round_half_even_def Let_def)

lemma float_of_int_small:
  assumes "0 \<le> n" "n < 2 ^ 53"
  shows "float_of_int n = Inr (PyFloat n 0)"
proof (cases "n = 0")
  case True
  then show ?thesis by (simp add: float_of_int_def bit_length.simps)
next
  case False
  then have "bit_length n \<le> 53" using assms by (intro bit_length_le) simp_all
  then show ?thesis by (simp add: float_of_int_def Let_def)
qed

lemma float_of_int_overflow:
  assumes "2 ^ 1024 - 2 ^ 970 \<le> n"
  shows "float_of_int n = Inl OverflowError"
proof -
  define P :: int where "P = 2 ^ 970"
  have P: "0 < P" by (simp add: P_def)
  have p971: "(2::int) ^ 971 = 2 * P" by (simp add: P_def)
  have p1023: "(2::int) ^ 1023 = 2 ^ 53 * P" by (simp add: P_def)
  have p1024: "(2::int) ^ 1024 = 2 ^ 54 * P" by (simp add: P_def)
  have "2 ^ 54 * P - P \<le> n" using assms unfolding p1024 P_def [symmetric] .
  then have n: "18014398509481983 * P \<le> n" by simp
  have pos: "0 < n" using n P by linarith
  have big: "1023 < bit_length n"
  proof (rule bit_length_gt [OF pos])
    show "2 ^ 1023 \<le> n" unfolding p1023 using n P by simp
  qed
  show ?thesis
  proof (cases "1024 < bit_length n")
    case True
    then show ?thesis by (simp add: float_of_int_def Let_def)
  next
    case False
    with big have b: "bit_length n = 1024" by simp
    have "n < 2 ^ bit_length n" using bit_length_bounds [OF pos] by simp
    then have lt: "n < 2 ^ 54 * P" unfolding b p1024 .
    define r where "r = n - 2 * P * (2 ^ 53 - 1)"
    have r: "P \<le> r" "r < 2 * P" using n lt by (simp_all add: r_def algebra_simps)
    have eq: "n = 2 * P * (2 ^ 53 - 1) + r" by (simp add: r_def)
    have q: "n div (2 * P) = 2 ^ 53 - 1"
      using r P by (intro int_div_pos_eq [OF eq]) simp_all
    have m: "n mod (2 * P) = r"
      using r P by (intro int_mod_pos_eq [OF eq]) simp_all
    have rhe: "round_half_even n 971 = 2 ^ 53"
      unfolding round_half_even_def p971 Let_def q m using r by auto
    have s: "bit_length n - 53 = 971" by (simp add: b)
    show ?thesis unfolding float_of_int_def Let_def s using pos b rhe by simp
  qed
qed

lemma float_of_int_finite:
  assumes "0 < n" "n < 2 ^ 1024 - 2 ^ 970"
  shows "\<exists>m e. float_of_int n = Inr (PyFloat m e) \<and> 0 < m"
proof (cases "bit_length n \<le> 53")
  case True
  then show ?thesis using assms(1) by (simp add: float_of_int_def Let_def)
next
  case False
  define b where "b = bit_length n"
  define s where "s = b - 53"
  define m where "m = round_half_even n s"
  have b53: "53 < b" using False by (simp add: b_def)
  have "(2::int) ^ s \<le> 2 ^ (b - 1)"
    by (rule power_increasing) (simp_all add: s_def)
  moreover have "2 ^ (b - 1) \<le> n"
    using bit_length_bounds [OF assms(1)] unfolding b_def by blast
  ultimately have "2 ^ s \<le> n" by (rule order_trans)
  then have "0 < n div 2 ^ s" by (simp add: pos_imp_zdiv_pos_iff)
  then have mpos: "0 < m" using round_half_even_bounds [of n s] by (simp add: m_def)
  define P :: int where "P = 2 ^ 970"
  have P: "0 < P" by (simp add: P_def)
  have p971: "(2::int) ^ 971 = 2 * P" by (simp add: P_def)
  have p1024: "(2::int) ^ 1024 = 2 ^ 54 * P" by (simp add: P_def)
  have "n < 2 ^ 54 * P - P" using assms(2) unfolding p1024 P_def [symmetric] .
  then have n: "n < 18014398509481983 * P" by simp
  have "n < 2 ^ 1024" unfolding p1024 using n P by simp
  then have b1024: "b \<le> 1024" unfolding b_def by (rule bit_length_le [OF assms(1)])
  have no_carry: "m \<noteq> 2 ^ 53" if "b = 1024"
  proof
    assume carry: "m = 2 ^ 53"
    have s: "s = 971" using that by (simp add: s_def)
    define q where "q = n div (2 * P)"
    define r where "r = n mod (2 * P)"
    have eq: "n = 2 * P * q + r" by (simp add: q_def r_def)
    have r: "0 \<le> r" "r < 2 * P" using P by (simp_all add: r_def)
    have m: "m = (if 2 * P < 2 * r \<or> (2 * r = 2 * P \<and> odd q) then q + 1 else q)"
      unfolding m_def round_half_even_def s p971 Let_def q_def r_def ..
    have "2 * P * q \<le> n" using eq r by linarith
    then have "2 * P * q < 2 * P * 9007199254740992" using n P by linarith
    then have q: "q < 9007199254740992" using P by simp
    have up: "q = 9007199254740991 \<and> P \<le> r"
      using carry m q by (auto split: if_splits)
    then have "n = 2 * P * 9007199254740991 + r" using eq by simp
    with up n show False by linarith
  qed
  have "\<not> 1024 < (if m = 2 ^ 53 then b + 1 else b)"
    using b1024 no_carry by (cases "b = 1024") auto
  then have "float_of_int n = Inr (PyFloat m (int s))"
    using False assms(1) unfolding float_of_int_def Let_def b_def [symmetric] s_def [symmetric]
    by (simp add: m_def)
  with mpos show ?thesis by blast
qed

subsection \<open>Rounding a large integer to a double\<close>

lemma float_of_int_rounded:
  assumes "2 ^ 53 \<le> n" "n < 2 ^ 106"
  shows "\<exists>m s. float_of_int n = Inr (PyFloat m (int s)) \<and> 0 < m \<and> 1 \<le> s \<and>
           2 ^ 53 * 2 ^ (s - 1) \<le> m * 2 ^ s \<and> n \<le> m * 2 ^ s + 2 ^ (s - 1) \<and>
           m * 2 ^ s \<le> 2 * n \<and> m * 2 ^ s \<le> 2 ^ 106"
proof -
  have pos: "0 < n" using assms(1) by (smt (verit) zero_less_power)
  define b where "b = bit_length n"
  define s where "s = b - 53"
  define m where "m = round_half_even n s"
  define P :: int where "P = 2 ^ (s - 1)"
  define S :: int where "S = 2 ^ s"
  define q where "q = n div S"
  define r where "r = n mod S"
  define a :: int where "a = 2 ^ 52"
  have a: "0 < a" by (simp add: a_def)
  have a53: "(2::int) ^ 53 = 2 * a" by (simp add: a_def)
  have b53: "53 < b" unfolding b_def using assms(1) by (intro bit_length_gt [OF pos])
  have b106: "b \<le> 106" unfolding b_def using assms(2) by (intro bit_length_le [OF pos])
  have s1: "1 \<le> s" "s \<le> 53" using b53 b106 by (simp_all add: s_def)
  have P: "0 < P" by (simp add: P_def)
  have S: "S = 2 * P" unfolding S_def P_def using s1(1) by (cases s) simp_all
  have S0: "0 < S" "0 \<le> S" using S P by simp_all
  have lo: "a * S \<le> n"
  proof -
    have "(2::int) ^ (b - 1) = 2 ^ (52 + s)"
      using b53 by (simp add: s_def)
    then have "(2::int) ^ (b - 1) = a * S" by (simp only: power_add S_def a_def)
    then show ?thesis using bit_length_bounds [OF pos] by (simp only: b_def)
  qed
  have hi: "n < 2 * a * S"
  proof -
    have "(2::int) ^ b = 2 ^ (53 + s)" using b53 by (simp add: s_def)
    then have "(2::int) ^ b = 2 * a * S" by (simp only: power_add S_def a53)
    then show ?thesis using bit_length_bounds [OF pos] by (simp only: b_def)
  qed
  have S2b: "2 * a * S \<le> 2 ^ 106"
  proof -
    have "(2::int) ^ (53 + s) \<le> 2 ^ 106" using s1(2) by (intro power_increasing) simp_all
    then show ?thesis by (simp only: power_add S_def a53)
  qed
  have "n = S * q + r" by (simp add: q_def r_def)
  then have eq: "n = q * S + r" by (simp only: mult.commute)
  have r: "0 \<le> r" "r < S" using S0 by (simp_all add: r_def)
  have q_lo: "a \<le> q"
  proof (rule ccontr)
    assume "\<not> a \<le> q"
    then have "q + 1 \<le> a" by simp
    then have "(q + 1) * S \<le> a * S" using S0(2) by (rule mult_right_mono)
    then have "q * S + S \<le> a * S" by (simp only: distrib_right mult_1)
    then show False using eq r lo by linarith
  qed
  have q_hi: "q < 2 * a"
  proof (rule ccontr)
    assume "\<not> q < 2 * a"
    then have "2 * a \<le> q" by simp
    then have "2 * a * S \<le> q * S" using S0(2) by (rule mult_right_mono)
    then show False using eq r hi by linarith
  qed
  have m: "m = (if S < 2 * r \<or> (2 * r = S \<and> odd q) then q + 1 else q)"
    unfolding m_def round_half_even_def Let_def q_def r_def S_def ..
  have mq: "q \<le> m" "m \<le> q + 1" using m by (simp_all split: if_splits)
  have mpos: "0 < m" using mq(1) q_lo a by linarith
  have qS: "a * S \<le> q * S" using q_lo S0(2) by (rule mult_right_mono)
  have mlo: "q * S \<le> m * S" using mq(1) S0(2) by (rule mult_right_mono)
  have "m * S \<le> (q + 1) * S" using mq(2) S0(2) by (rule mult_right_mono)
  then have mhi: "m * S \<le> q * S + S" by (simp only: distrib_right mult_1)
  have "(q + 1) * S \<le> 2 * a * S"
    using q_hi S0(2) by (intro mult_right_mono) simp_all
  then have qhi: "q * S + S \<le> 2 * a * S" by (simp only: distrib_right mult_1)
  have aS: "a * S = 2 * a * P" by (simp add: S)
  have aS1: "S \<le> a * S"
  proof -
    have "1 * S \<le> a * S" using a S0(2) by (intro mult_right_mono) simp_all
    then show ?thesis by simp
  qed
  have c1: "2 * a * P \<le> m * S" using qS mlo aS by linarith
  have c2: "n \<le> m * S + P"
  proof (cases "m = q")
    case True
    then have "2 * r \<le> S" using m by (simp split: if_splits)
    moreover have "m * S = q * S" using True by simp
    ultimately show ?thesis using eq S by linarith
  next
    case False
    then have "m = q + 1" using mq by simp
    then have "m * S = q * S + S" by (simp only: distrib_right mult_1)
    then show ?thesis using eq r P by linarith
  qed
  have c3: "m * S \<le> 2 * n" using mhi qS aS1 eq r by linarith
  have c4: "m * S \<le> 2 ^ 106" using mhi qhi S2b by linarith
  have "\<not> b \<le> 53" using b53 by simp
  moreover have "\<not> 1024 < (if m = 2 ^ 53 then b + 1 else b)" using b106 by simp
  ultimately have "float_of_int n = Inr (PyFloat m (int s))"
    using pos unfolding float_of_int_def Let_def b_def [symmetric] s_def [symmetric]
    by (simp add: m_def)
  then show ?thesis
    using mpos s1(1) c1 c2 c3 c4 unfolding S_def P_def a53 [symmetric] by blast
qed

subsection \<open>The truncated root, whatever the library\<close>

lemma int_pow_half_with_overflow:
  "2 ^ 1024 - 2 ^ 970 \<le> n \<Longrightarrow> int_pow_half_with libm n = Inl OverflowError"
  by (simp add: int_pow_half_with_def py_pow_half_with_def float_of_int_overflow)

lemma int_pow_half_with_finite:
  assumes "0 < n" "n < 2 ^ 1024 - 2 ^ 970"
  shows "\<exists>r. int_pow_half_with libm n = Inr r"
proof -
  obtain m e where f: "float_of_int n = Inr (PyFloat m e)" and m: "0 < m"
    using float_of_int_finite [OF assms] by blast
  show ?thesis
    using m by (simp add: int_pow_half_with_def py_pow_half_with_def f float_pow_half_with_def
        py_int_def)
qed

subsection \<open>Trial division up to the root\<close>

lemma small_divisor:
  assumes "2 \<le> d" "d < n" "d dvd n"
  shows "\<exists>j. 2 \<le> j \<and> j \<le> isqrt n \<and> n mod j = 0"
proof -
  obtain c where c: "n = d * c" using assms(3) by (auto simp: dvd_def)
  have "\<not> c \<le> 1"
  proof
    assume "c \<le> 1"
    then have "d * c \<le> d * 1" using assms(1) by (intro mult_left_mono) simp_all
    with c assms(2) show False by simp
  qed
  then have c2: "2 \<le> c" by simp
  show ?thesis
  proof (cases "d \<le> c")
    case True
    then have "d * d \<le> n" unfolding c using assms(1) by (intro mult_left_mono) simp_all
    then have "d \<le> isqrt n" using assms(1) by (intro isqrt_ge) simp_all
    with assms(1) c show ?thesis by (intro exI [of _ d]) simp
  next
    case False
    then have "c * c \<le> d * c" using c2 by (intro mult_right_mono) simp_all
    then have "c \<le> isqrt n" unfolding c [symmetric] using c2 by (intro isqrt_ge) simp_all
    with c2 c show ?thesis by (intro exI [of _ c]) simp
  qed
qed

lemma trial_range:
  assumes "isqrt n \<le> r" "r < n"
  shows "(\<forall>j\<in>{2..<r + 1}. n mod j \<noteq> 0) \<longleftrightarrow> (\<forall>j\<in>{2..isqrt n}. n mod j \<noteq> 0)"
proof
  assume "\<forall>j\<in>{2..<r + 1}. n mod j \<noteq> 0"
  then show "\<forall>j\<in>{2..isqrt n}. n mod j \<noteq> 0" using assms(1) by auto
next
  assume a: "\<forall>j\<in>{2..isqrt n}. n mod j \<noteq> 0"
  show "\<forall>j\<in>{2..<r + 1}. n mod j \<noteq> 0"
  proof
    fix j assume j: "j \<in> {2..<r + 1}"
    show "n mod j \<noteq> 0"
    proof
      assume "n mod j = 0"
      then have "j dvd n" by (simp add: mod_eq_0_iff_dvd)
      moreover have "2 \<le> j" "j < n" using j assms(2) by simp_all
      ultimately have "\<exists>i. 2 \<le> i \<and> i \<le> isqrt n \<and> n mod i = 0"
        by (intro small_divisor [of j n])
      then obtain i where i: "i \<in> {2..isqrt n}" and z: "n mod i = 0" by auto
      from a i have "n mod i \<noteq> 0" by (rule bspec)
      from this z show False by (rule notE)
    qed
  qed
qed

lemma prime_number_iff:
  assumes "2 \<le> n"
  shows "prime_number n \<longleftrightarrow> (\<forall>j\<in>{2..isqrt n}. n mod j \<noteq> 0)"
proof
  assume p: "prime_number n"
  show "\<forall>j\<in>{2..isqrt n}. n mod j \<noteq> 0"
  proof
    fix j assume j: "j \<in> {2..isqrt n}"
    have n0: "0 \<le> n" using assms by simp
    have "j * j \<le> isqrt n * isqrt n" using j by (intro mult_mono) simp_all
    then have jj: "j * j \<le> n" using isqrt_bounds [OF n0] by linarith
    have "2 * j \<le> j * j" using j by (intro mult_right_mono) simp_all
    with jj have "2 * j \<le> n" by linarith
    moreover have "2 \<le> j" using j by simp
    ultimately have "j \<noteq> n" "j \<noteq> 1" "0 < j" by linarith+
    then have "\<not> j dvd n" using p unfolding prime_number_def by blast
    then show "n mod j \<noteq> 0" by (simp add: mod_eq_0_iff_dvd)
  qed
next
  assume a: "\<forall>j\<in>{2..isqrt n}. n mod j \<noteq> 0"
  have "d = 1 \<or> d = n" if d: "0 < d" "d dvd n" for d
  proof (rule ccontr)
    assume "\<not> (d = 1 \<or> d = n)"
    moreover have "d \<le> n" using d assms by (intro zdvd_imp_le) simp_all
    ultimately have "2 \<le> d" "d < n" using d(1) by linarith+
    then have "\<exists>i. 2 \<le> i \<and> i \<le> isqrt n \<and> n mod i = 0"
      using d(2) by (intro small_divisor [of d n])
    then obtain i where i: "i \<in> {2..isqrt n}" and z: "n mod i = 0" by auto
    from a i have "n mod i \<noteq> 0" by (rule bspec)
    from this z show False by (rule notE)
  qed
  then show "prime_number n" using assms by (simp add: prime_number_def)
qed

subsection \<open>What the function returns\<close>

lemma is_prime_with_loop:
  assumes "1 < n" "int_pow_half_with libm n = Inr r"
  shows "is_prime_with libm n = Inr (\<forall>j\<in>{2..r}. n mod j \<noteq> 0)"
proof -
  have "{2..<r + 1} = {2..r}" by auto
  then show ?thesis
    using assms for_loop_all [of 2 n "r + 1"] by (simp add: is_prime_with_def)
qed


lemma is_prime_with_overflow:
  assumes "2 ^ 1024 - 2 ^ 970 \<le> n"
  shows "is_prime_with libm n = Inl OverflowError"
proof -
  have "(1::int) < 2 ^ 1024 - 2 ^ 970" by simp
  then have "1 < n" using assms by linarith
  then show ?thesis
    using int_pow_half_with_overflow [OF assms] by (simp add: is_prime_with_def)
qed

lemma is_prime_overflow:
  "2 ^ 1024 - 2 ^ 970 \<le> n \<Longrightarrow> is_prime n = Inl OverflowError"
  unfolding is_prime_def by (rule is_prime_with_overflow)

lemma int_pow_half_overflow:
  "2 ^ 1024 - 2 ^ 970 \<le> n \<Longrightarrow> int_pow_half n = Inl OverflowError"
  unfolding int_pow_half_def by (rule int_pow_half_with_overflow)

lemma int_pow_half_finite:
  "0 < n \<Longrightarrow> n < 2 ^ 1024 - 2 ^ 970 \<Longrightarrow> \<exists>r. int_pow_half n = Inr r"
  unfolding int_pow_half_def by (rule int_pow_half_with_finite)

lemma is_prime_with_returns:
  assumes "n < 2 ^ 1024 - 2 ^ 970"
  shows "\<exists>b. is_prime_with libm n = Inr b"
proof (cases "n \<le> 1")
  case True
  then have "is_prime_with libm n = Inr False" by (simp add: is_prime_with_def)
  then show ?thesis ..
next
  case False
  then have "0 < n" "1 < n" by simp_all
  then obtain r where "int_pow_half_with libm n = Inr r"
    using int_pow_half_with_finite [OF _ assms] by blast
  then show ?thesis using is_prime_with_loop [OF \<open>1 < n\<close>] by blast
qed

lemma is_prime_returns:
  "n < 2 ^ 1024 - 2 ^ 970 \<Longrightarrow> \<exists>b. is_prime n = Inr b"
  unfolding is_prime_def by (rule is_prime_with_returns)

subsection \<open>The truncated root of an accurate library\<close>

lemma square_mono: "0 \<le> a \<Longrightarrow> a \<le> b \<Longrightarrow> a * a \<le> b * (b::int)"
  by (rule mult_mono) simp_all

lemma div_less_imp_less_mult:
  assumes "0 < D" "M div D < (k::int)"
  shows "M < k * D"
proof -
  have "M = D * (M div D) + M mod D" by simp
  moreover have "M mod D < D" using assms(1) by simp
  moreover have "(M div D + 1) * D \<le> k * D"
    using assms by (intro mult_right_mono) simp_all
  then have "M div D * D + D \<le> k * D" by (simp only: distrib_right mult_1)
  then have "D * (M div D) + D \<le> k * D" by (simp only: mult.commute)
  ultimately show ?thesis by linarith
qed

lemma trunc_lower:
  assumes rw: "root_within X (PyFloat M E)"
    and k: "1 \<le> k" "k < 2 ^ 53"
    and X: "k * k \<le> X \<or> (\<exists>j. 2 ^ 53 * 2 ^ j \<le> X \<and> k * k \<le> X + 2 ^ j)"
  shows "k \<le> float_trunc (PyFloat M E)"
proof (cases "1 \<le> E")
  case True
  have M: "2 ^ 52 \<le> M" using rw by (simp add: root_within_def)
  obtain c where c: "nat E = Suc c" using True by (cases "nat E") simp_all
  have "(1::int) \<le> 2 ^ c" by simp
  then have "M * 2 \<le> M * (2 * 2 ^ c)" using M by (intro mult_left_mono) simp_all
  then have "M * 2 \<le> float_trunc (PyFloat M E)"
    using True c by (simp add: float_trunc_def)
  then show ?thesis using M k(2) by simp
next
  case False
  define t where "t = nat (- E)"
  define D :: int where "D = 2 ^ t"
  define r where "r = float_trunc (PyFloat M E)"
  have D: "1 \<le> D" "0 < D" by (simp_all add: D_def)
  have DD: "(4::int) ^ t = D * D" by (simp add: D_def flip: power_mult_distrib)
  have M: "2 ^ 52 \<le> M" "M < 2 ^ 53" using rw by (simp_all add: root_within_def)
  have M0: "0 < M" using M(1) by (smt (verit) zero_less_power)
  have A2: "64 * X * (D * D) \<le> (8 * M + 5) * (8 * M + 5)"
  proof (cases "E = 0")
    case True
    then show ?thesis using rw by (simp add: root_within_def D_def t_def)
  next
    case False
    then have "E < 0" using \<open>\<not> 1 \<le> E\<close> by simp
    then show ?thesis using rw by (simp add: root_within_def DD [symmetric] t_def)
  qed
  have r: "r = M div D"
  proof (cases "E = 0")
    case True
    then show ?thesis by (simp add: r_def float_trunc_def D_def t_def)
  next
    case False
    then have "E < 0" using \<open>\<not> 1 \<le> E\<close> by simp
    then show ?thesis using M0 by (simp add: r_def float_trunc_def D_def t_def)
  qed
  have "\<not> r < k"
  proof
    assume "r < k"
    then have "M < k * D" unfolding r using D(2) by (intro div_less_imp_less_mult)
    define u where "u = k * D"
    have Mu: "M + 1 \<le> u" using \<open>M < k * D\<close> by (simp add: u_def)
    have u1: "1 \<le> u" using Mu M0 by linarith
    have "(8 * M + 5) * (8 * M + 5) \<le> (8 * u - 3) * (8 * u - 3)"
      using Mu M0 by (intro square_mono) simp_all
    also have "\<dots> = 64 * (u * u) - 48 * u + 9" by (simp add: algebra_simps)
    finally have E1: "64 * X * (D * D) \<le> 64 * (u * u) - 48 * u + 9" using A2 by linarith
    have uu: "(k * k) * (D * D) = u * u" by (simp add: u_def algebra_simps)
    show False
    proof (cases "k * k \<le> X")
      case True
      then have "(k * k) * (D * D) \<le> X * (D * D)"
        using D by (intro mult_right_mono) simp_all
      then have "u * u \<le> X * (D * D)" by (simp only: uu)
      then show False using E1 u1 by linarith
    next
      case False
      then obtain j where j: "2 ^ 53 * 2 ^ j \<le> X" "k * k \<le> X + 2 ^ j"
        using X by blast
      define P :: int where "P = 2 ^ j"
      define w where "w = P * (D * D)"
      define z where "z = P * D"
      have P: "1 \<le> P" by (simp add: P_def)
      have jP: "2 ^ 53 * P \<le> X" "k * k \<le> X + P" using j by (simp_all add: P_def)
      have "(k * k) * (D * D) \<le> (X + P) * (D * D)"
        using jP(2) D by (intro mult_right_mono) simp_all
      then have "u * u \<le> X * (D * D) + w" by (simp only: uu distrib_right w_def)
      then have one: "48 * u \<le> 64 * w + 9" using E1 by linarith
      have "(8 * M + 5) * (8 * M + 5) \<le> (2 ^ 56 - 3) * (2 ^ 56 - 3)"
        using M by (intro square_mono) simp_all
      also have "\<dots> < 64 * (2::int) ^ 106" by simp
      finally have XD: "X * (D * D) < 2 ^ 106" using A2 by linarith
      have "2 ^ 53 * P * (D * D) \<le> X * (D * D)"
        using jP(1) D by (intro mult_right_mono) simp_all
      then have "2 ^ 53 * w \<le> X * (D * D)" by (simp only: w_def mult.assoc)
      then have "2 ^ 53 * w < 2 ^ 53 * 2 ^ 53" using XD by simp
      then have w53: "w < 2 ^ 53" by simp
      have wpow: "w = 2 ^ (j + t + t)" by (simp add: w_def P_def D_def power_add)
      have "j + t + t < 53"
        using w53 unfolding wpow by (rule power_less_imp_less_exp [rotated]) simp
      then have "(2::int) ^ (j + t + t) \<le> 2 ^ 52" by (intro power_increasing) simp_all
      then have w52: "w \<le> 2 ^ 52" by (simp only: wpow)
      have zz: "z * z = P * w" by (simp add: z_def w_def algebra_simps)
      have "P * w \<le> P * 2 ^ 52" using w52 P by (intro mult_left_mono) simp_all
      then have "2 * (z * z) \<le> 2 ^ 53 * P" by (simp add: zz)
      then have three: "2 * (z * z) < k * k" using jP(1) False by linarith
      have wz: "w = z * D" by (simp add: w_def z_def algebra_simps)
      have "48 * k * D \<le> 64 * z * D + 9 * D"
        using one D(1) by (simp add: u_def wz algebra_simps)
      then have "(48 * k) * D \<le> (64 * z + 9) * D" by (simp add: algebra_simps)
      then have kz: "48 * k \<le> 64 * z + 9" using D(2) by simp
      have k9: "9 \<le> k"
      proof (rule ccontr)
        assume "\<not> 9 \<le> k"
        then have "k * k \<le> 8 * 8" using k(1) by (intro mult_mono) simp_all
        moreover have "(2::int) ^ 53 * 1 \<le> 2 ^ 53 * P" using P by (intro mult_left_mono) simp_all
        ultimately show False using jP(1) False by simp
      qed
      have "(47 * k) * (47 * k) \<le> (64 * z) * (64 * z)"
        using kz k9 by (intro square_mono) simp_all
      then have "2209 * (k * k) \<le> 4096 * (z * z)" by (simp add: algebra_simps)
      then show False using three k(1) by (smt (verit) mult_nonneg_nonneg)
    qed
  qed
  then show ?thesis by (simp add: r_def)
qed

lemma trunc_upper:
  assumes rw: "root_within X (PyFloat M E)"
  shows "0 \<le> float_trunc (PyFloat M E) \<and>
         49 * (float_trunc (PyFloat M E) * float_trunc (PyFloat M E)) \<le> 64 * X"
proof -
  define r where "r = float_trunc (PyFloat M E)"
  have M: "2 ^ 52 \<le> M" "M < 2 ^ 53" using rw by (simp_all add: root_within_def)
  have M0: "0 < M" using M(1) by (smt (verit) zero_less_power)
  have "(7 * M) * (7 * M) \<le> (8 * M - 5) * (8 * M - 5)"
    using M by (intro square_mono) simp_all
  then have sq: "49 * (M * M) \<le> (8 * M - 5) * (8 * M - 5)" by (simp add: algebra_simps)
  have "0 \<le> r \<and> 49 * (r * r) \<le> 64 * X"
  proof (cases "0 \<le> E")
    case True
    define D :: int where "D = 2 ^ nat E"
    have D: "0 < D" by (simp add: D_def)
    have DD: "(4::int) ^ nat E = D * D" by (simp add: D_def flip: power_mult_distrib)
    have r: "r = M * D" using True by (simp add: r_def float_trunc_def D_def)
    have A1: "(8 * M - 5) * (8 * M - 5) * (D * D) \<le> 64 * X"
      using rw True by (simp add: root_within_def DD)
    have "49 * (M * M) * (D * D) \<le> (8 * M - 5) * (8 * M - 5) * (D * D)"
      using sq D by (intro mult_right_mono) simp_all
    moreover have "49 * (M * M) * (D * D) = 49 * (r * r)" by (simp add: r algebra_simps)
    ultimately have "49 * (r * r) \<le> 64 * X" using A1 by linarith
    moreover have "0 \<le> r" using M0 D by (simp add: r)
    ultimately show ?thesis by simp
  next
    case False
    define D :: int where "D = 2 ^ nat (- E)"
    have D: "0 < D" by (simp add: D_def)
    have DD: "(4::int) ^ nat (- E) = D * D" by (simp add: D_def flip: power_mult_distrib)
    have r: "r = M div D" using False M0 by (simp add: r_def float_trunc_def D_def)
    have A1: "(8 * M - 5) * (8 * M - 5) \<le> 64 * X * (D * D)"
      using rw False by (simp add: root_within_def DD)
    have r0: "0 \<le> r" using M0 D by (simp add: r pos_imp_zdiv_nonneg_iff)
    have "D * (M div D) + M mod D = M" by simp
    moreover have "0 \<le> M mod D" using D by simp
    ultimately have "D * (M div D) \<le> M" by linarith
    then have "r * D \<le> M" unfolding r by (simp only: mult.commute)
    then have "(r * D) * (r * D) \<le> M * M"
      using r0 D by (intro square_mono) simp_all
    then have "49 * (r * r) * (D * D) \<le> 49 * (M * M)" by (simp add: algebra_simps)
    then have "(49 * (r * r)) * (D * D) \<le> (64 * X) * (D * D)" using sq A1 by linarith
    then have "49 * (r * r) \<le> 64 * X"
      using D by (simp add: mult_le_cancel_right)
    with r0 show ?thesis by simp
  qed
  then show ?thesis by (simp add: r_def)
qed

lemma root_of_accurate:
  assumes acc: "pow_half_accurate libm" and n: "1 < n" "n < 2 ^ 106"
  shows "\<exists>r. int_pow_half_with libm n = Inr r \<and> isqrt n \<le> r \<and> r < n"
proof -
  define k where "k = isqrt n"
  have n0: "0 \<le> n" using n(1) by simp
  have kb: "0 \<le> k" "k * k \<le> n" "n < (k + 1) * (k + 1)"
    using isqrt_bounds [OF n0] by (simp_all add: k_def)
  have k1: "1 \<le> k" unfolding k_def using n(1) by (intro isqrt_ge) simp_all
  have k53: "k < 2 ^ 53" unfolding k_def using n(2) by (intro isqrt_less [OF n0]) simp_all
  have "\<exists>m e X. float_of_int n = Inr (PyFloat m (int e)) \<and> 0 < m \<and> X = m * 2 ^ e \<and>
          X \<le> 2 ^ 106 \<and> (X \<le> n \<or> (X \<le> 2 * n \<and> 3 \<le> n)) \<and>
          (k * k \<le> X \<or> (\<exists>j. 2 ^ 53 * 2 ^ j \<le> X \<and> k * k \<le> X + 2 ^ j))"
  proof (cases "n < 2 ^ 53")
    case True
    then have "float_of_int n = Inr (PyFloat n (int 0))"
      using n0 by (simp add: float_of_int_small)
    moreover have "n \<le> 2 ^ 106" using n(2) by simp
    ultimately have "float_of_int n = Inr (PyFloat n (int 0)) \<and> 0 < n \<and> n = n * 2 ^ 0 \<and>
          n \<le> 2 ^ 106 \<and> (n \<le> n \<or> (n \<le> 2 * n \<and> 3 \<le> n)) \<and>
          (k * k \<le> n \<or> (\<exists>j. 2 ^ 53 * 2 ^ j \<le> n \<and> k * k \<le> n + 2 ^ j))"
      using kb(2) n(1) by simp
    then show ?thesis by blast
  next
    case False
    then have big: "2 ^ 53 \<le> n" by simp
    obtain m s where f: "float_of_int n = Inr (PyFloat m (int s))" "0 < m" "1 \<le> s"
        "2 ^ 53 * 2 ^ (s - 1) \<le> m * 2 ^ s" "n \<le> m * 2 ^ s + 2 ^ (s - 1)"
        "m * 2 ^ s \<le> 2 * n" "m * 2 ^ s \<le> 2 ^ 106"
      using float_of_int_rounded [OF big n(2)] by blast
    have "k * k \<le> m * 2 ^ s + 2 ^ (s - 1)" using kb(2) f(5) by linarith
    then have "\<exists>j. 2 ^ 53 * 2 ^ j \<le> m * 2 ^ s \<and> k * k \<le> m * 2 ^ s + 2 ^ j"
      using f(4) by blast
    moreover have "3 \<le> n" using big by simp
    ultimately have "float_of_int n = Inr (PyFloat m (int s)) \<and> 0 < m \<and>
          m * 2 ^ s = m * 2 ^ s \<and> m * 2 ^ s \<le> 2 ^ 106 \<and>
          (m * 2 ^ s \<le> n \<or> (m * 2 ^ s \<le> 2 * n \<and> 3 \<le> n)) \<and>
          (k * k \<le> m * 2 ^ s \<or>
            (\<exists>j. 2 ^ 53 * 2 ^ j \<le> m * 2 ^ s \<and> k * k \<le> m * 2 ^ s + 2 ^ j))"
      using f by blast
    then show ?thesis by blast
  qed
  then obtain m e X where f: "float_of_int n = Inr (PyFloat m (int e))" "0 < m"
      "X = m * 2 ^ e" "X \<le> 2 ^ 106" "X \<le> n \<or> (X \<le> 2 * n \<and> 3 \<le> n)"
      "k * k \<le> X \<or> (\<exists>j. 2 ^ 53 * 2 ^ j \<le> X \<and> k * k \<le> X + 2 ^ j)"
    by blast
  obtain M E where y: "libm (PyFloat m (int e)) = PyFloat M E"
    by (cases "libm (PyFloat m (int e))") simp
  have "0 < m \<and> 0 \<le> int e \<and> m * 2 ^ nat (int e) \<le> 2 ^ 106"
    using f(2,3,4) by simp
  then have "root_within (m * 2 ^ nat (int e)) (libm (PyFloat m (int e)))"
    by (rule acc [unfolded pow_half_accurate_def, rule_format])
  then have rw: "root_within X (PyFloat M E)" by (simp add: f(3) y)
  define r where "r = float_trunc (PyFloat M E)"
  have res: "int_pow_half_with libm n = Inr r"
    using f(1,2) y
    by (simp add: int_pow_half_with_def py_pow_half_with_def float_pow_half_with_def py_int_def
        r_def)
  have lo: "k \<le> r" unfolding r_def using rw k1 k53 f(6) by (rule trunc_lower)
  have up: "0 \<le> r" "49 * (r * r) \<le> 64 * X" using trunc_upper [OF rw] by (simp_all add: r_def)
  have "r < n"
  proof (rule ccontr)
    assume "\<not> r < n"
    then have "n * n \<le> r * r" using n(1) by (intro square_mono) simp_all
    then have nn: "49 * (n * n) \<le> 64 * X" using up(2) by linarith
    have "2 * n \<le> n * n" using n(1) by (intro mult_right_mono) simp_all
    moreover have "3 * n \<le> n * n" if "3 \<le> n" using that by (intro mult_right_mono) simp_all
    ultimately show False using nn f(5) n(1) by linarith
  qed
  with res lo show ?thesis by (auto simp: k_def)
qed

subsection \<open>The library that rounds to nearest is accurate\<close>

lemma root_within_neg:
  assumes "2 ^ 52 \<le> M" "M < 2 ^ 53"
    "(8 * M - 5) * (8 * M - 5) \<le> 64 * (x * 4 ^ t)"
    "64 * (x * 4 ^ t) \<le> (8 * M + 5) * (8 * M + 5)"
  shows "root_within x (PyFloat M (- int t))"
  using assms by (cases "t = 0") (simp_all add: root_within_def algebra_simps)

lemma root_within_shift:
  assumes "root_within x (PyFloat M E)"
  shows "root_within (x * 4 ^ h) (PyFloat M (E + int h))"
proof -
  define a where "a = (8 * M - 5) * (8 * M - 5)"
  define c where "c = (8 * M + 5) * (8 * M + 5)"
  define H :: int where "H = 4 ^ h"
  have H: "0 < H" by (simp add: H_def)
  have M: "2 ^ 52 \<le> M" "M < 2 ^ 53" using assms by (simp_all add: root_within_def)
  show ?thesis
  proof (cases "0 \<le> E")
    case True
    define F :: int where "F = 4 ^ nat E"
    have p: "(4::int) ^ nat (E + int h) = F * H"
      using True by (simp add: F_def H_def nat_add_distrib power_add)
    have "a * F \<le> 64 * x" "64 * x \<le> c * F"
      using assms True by (simp_all add: root_within_def a_def c_def F_def)
    then have "a * F * H \<le> 64 * x * H" "64 * x * H \<le> c * F * H"
      using H by (simp_all add: mult_right_mono)
    then show ?thesis
      using True M by (simp add: root_within_def p a_def c_def H_def algebra_simps)
  next
    case False
    define F :: int where "F = 4 ^ nat (- E)"
    have F: "0 < F" by (simp add: F_def)
    have pre: "a \<le> 64 * x * F" "64 * x * F \<le> c"
      using assms False by (simp_all add: root_within_def a_def c_def F_def)
    show ?thesis
    proof (cases "0 \<le> E + int h")
      case True
      define G :: int where "G = 4 ^ nat (E + int h)"
      have G: "0 < G" by (simp add: G_def)
      have "h = nat (- E) + nat (E + int h)" using False True by simp
      then have "(4::int) ^ h = 4 ^ (nat (- E) + nat (E + int h))" by simp
      then have HFG: "H = F * G" by (simp only: H_def F_def G_def power_add)
      have "a * G \<le> 64 * x * F * G" "64 * x * F * G \<le> c * G"
        using pre G by (simp_all add: mult_right_mono)
      then have "a * G \<le> 64 * (x * H)" "64 * (x * H) \<le> c * G"
        by (simp_all add: HFG algebra_simps)
      then show ?thesis
        using True M by (simp add: root_within_def a_def c_def G_def H_def)
    next
      case False
      define G :: int where "G = 4 ^ nat (- (E + int h))"
      have "nat (- E) = h + nat (- (E + int h))" using False by simp
      then have "(4::int) ^ nat (- E) = 4 ^ (h + nat (- (E + int h)))" by simp
      then have FHG: "F = H * G" by (simp only: H_def F_def G_def power_add)
      have "a \<le> 64 * (x * H) * G" "64 * (x * H) * G \<le> c"
        using pre by (simp_all add: FHG algebra_simps)
      then show ?thesis
        using False M by (simp add: root_within_def a_def c_def G_def H_def)
    qed
  qed
qed

lemma sqrt_round_within:
  assumes "0 < x" "x < 2 ^ 106"
  shows "root_within x (sqrt_round x)"
proof -
  define k where "k = isqrt x"
  have x0: "0 \<le> x" using assms(1) by simp
  have kb: "0 \<le> k" "k * k \<le> x" "x < (k + 1) * (k + 1)"
    using isqrt_bounds [OF x0] by (simp_all add: k_def)
  have k1: "1 \<le> k" unfolding k_def using assms(1) by (intro isqrt_ge) simp_all
  have k53: "k < 2 ^ 53" unfolding k_def using assms(2) by (intro isqrt_less [OF x0]) simp_all
  define L where "L = bit_length k"
  have k0: "0 < k" using k1 by simp
  have Lb: "2 ^ (L - 1) \<le> k" "k < 2 ^ L" "0 < L"
    using bit_length_bounds [OF k0] by (simp_all add: L_def)
  have L53: "L \<le> 53" unfolding L_def using k53 by (intro bit_length_le [OF k0])
  define t where "t = 53 - L"
  define D :: int where "D = 2 ^ t"
  define N where "N = x * 4 ^ t"
  define R where "R = isqrt N"
  define M where "M = (if R * R + R < N then R + 1 else R)"
  have D: "0 < D" by (simp add: D_def)
  have four: "(4::int) ^ t = D * D" by (simp add: D_def flip: power_mult_distrib)
  have N: "N = x * (D * D)" by (simp add: N_def four)
  have N0: "0 \<le> N" using x0 D by (simp add: N)
  have Rb: "0 \<le> R" "R * R \<le> N" "N < (R + 1) * (R + 1)"
    using isqrt_bounds [OF N0] by (simp_all add: R_def)
  have "(2::int) ^ (L - 1) * 2 ^ t = 2 ^ (L - 1 + t)" by (simp add: power_add)
  also have "L - 1 + t = 52" using Lb(3) L53 by (simp add: t_def)
  finally have lowD: "2 ^ (L - 1) * D = 2 ^ 52" by (simp add: D_def)
  have "(2::int) ^ L * 2 ^ t = 2 ^ (L + t)" by (simp add: power_add)
  also have "L + t = 53" using L53 by (simp add: t_def)
  finally have highD: "2 ^ L * D = 2 ^ 53" by (simp add: D_def)
  have "2 ^ (L - 1) * D \<le> k * D" using Lb(1) D by (intro mult_right_mono) simp_all
  then have kD52: "2 ^ 52 \<le> k * D" by (simp only: lowD)
  have "(k + 1) * D \<le> 2 ^ L * D" using Lb(2) D by (intro mult_right_mono) simp_all
  then have kD53: "(k + 1) * D \<le> 2 ^ 53" by (simp only: highD)
  have "(k * D) * (k * D) = (k * k) * (D * D)" by (simp add: algebra_simps)
  also have "\<dots> \<le> N" unfolding N using kb(2) D by (intro mult_right_mono) simp_all
  finally have "k * D \<le> R" unfolding R_def using kb(1) D by (intro isqrt_ge) simp_all
  then have R52: "2 ^ 52 \<le> R" using kD52 by linarith
  have "N < (k + 1) * (k + 1) * (D * D)"
    unfolding N using kb(3) D by (intro mult_strict_right_mono) simp_all
  also have "\<dots> = ((k + 1) * D) * ((k + 1) * D)" by (simp add: algebra_simps)
  finally have "R < (k + 1) * D"
    unfolding R_def using kb(1) D by (intro isqrt_less [OF N0]) simp_all
  then have R53: "R < 2 ^ 53" using kD53 by linarith
  have R1: "1 \<le> R" using R52 by (smt (verit) one_le_power)
  have sq: "sqrt_round x =
      (if M = 2 ^ 53 then PyFloat (2 ^ 52) (1 - int t) else PyFloat M (- int t))"
    using L53 unfolding sqrt_round_def Let_def k_def [symmetric] L_def [symmetric]
    by (simp add: M_def R_def N_def t_def)
  have lowM: "(8 * M - 5) * (8 * M - 5) \<le> 64 * N"
  proof (cases "R * R + R < N")
    case True
    then have "M = R + 1" by (simp add: M_def)
    then have "(8 * M - 5) * (8 * M - 5) = 64 * (R * R) + 48 * R + 9"
      by (simp add: algebra_simps)
    then show ?thesis using True R1 by linarith
  next
    case False
    then have "M = R" by (simp add: M_def)
    then have "(8 * M - 5) * (8 * M - 5) = 64 * (R * R) - 80 * R + 25"
      by (simp add: algebra_simps)
    then show ?thesis using Rb(2) R1 by linarith
  qed
  have highM: "64 * N \<le> (8 * M + 5) * (8 * M + 5)"
  proof (cases "R * R + R < N")
    case True
    then have "M = R + 1" by (simp add: M_def)
    then have "(8 * M + 5) * (8 * M + 5) = 64 * (R * R) + 208 * R + 169"
      by (simp add: algebra_simps)
    moreover have "(R + 1) * (R + 1) = R * R + 2 * R + 1" by (simp add: algebra_simps)
    ultimately show ?thesis using Rb(3) R1 by linarith
  next
    case False
    then have "M = R" by (simp add: M_def)
    then have "(8 * M + 5) * (8 * M + 5) = 64 * (R * R) + 80 * R + 25"
      by (simp add: algebra_simps)
    then show ?thesis using False R1 by linarith
  qed
  have Mb: "2 ^ 52 \<le> M" "M \<le> 2 ^ 53" using R52 R53 by (simp_all add: M_def)
  show ?thesis
  proof (cases "M = 2 ^ 53")
    case False
    then have "M < 2 ^ 53" using Mb(2) by simp
    then have "root_within x (PyFloat M (- int t))"
      using Mb(1) lowM highM unfolding N_def by (intro root_within_neg)
    then show ?thesis using False by (simp add: sq)
  next
    case True
    have lo: "(2 ^ 56 - 10) * (2 ^ 56 - 10) \<le> 64 * N"
    proof -
      have "(2 ^ 56 - 10) * (2 ^ 56 - 10) \<le> (8 * M - 5) * ((8 * M - 5)::int)"
        unfolding True by simp
      then show ?thesis using lowM by linarith
    qed
    have hi: "64 * N \<le> (2 ^ 56 + 10) * (2 ^ 56 + 10)"
    proof -
      have "(8 * M + 5) * (8 * M + 5) \<le> (2 ^ 56 + 10) * ((2 ^ 56 + 10)::int)"
        unfolding True by simp
      then show ?thesis using highM by linarith
    qed
    have "root_within x (PyFloat (2 ^ 52) (1 - int t))"
    proof (cases t)
      case 0
      then have "N = x" by (simp add: N_def)
      then show ?thesis using lo hi 0 by (simp add: root_within_def)
    next
      case (Suc t')
      then have N4: "N = 4 * (x * 4 ^ t')" by (simp add: N_def)
      have "root_within x (PyFloat (2 ^ 52) (- int t'))"
        using lo hi unfolding N4 by (intro root_within_neg) simp_all
      then show ?thesis using Suc by simp
    qed
    then show ?thesis using True by (simp add: sq)
  qed
qed

lemma sqrt_round_within_top: "root_within (2 ^ 106) (sqrt_round (2 ^ 106))"
  by code_simp

lemma pow_half_nearest_accurate: "pow_half_accurate pow_half_nearest"
  unfolding pow_half_accurate_def
proof (intro allI impI)
  fix m e :: int
  assume a: "0 < m \<and> 0 \<le> e \<and> m * 2 ^ nat e \<le> 2 ^ 106"
  define x where "x = (if even e then m else 2 * m)"
  define h where "h = nat (e div 2)"
  obtain M E where s: "sqrt_round x = PyFloat M E" by (cases "sqrt_round x") simp
  have x0: "0 < x" using a by (simp add: x_def)
  have X: "m * 2 ^ nat e = x * 4 ^ h"
  proof (cases "even e")
    case True
    then obtain c where c: "e = 2 * c" by (auto elim: evenE)
    then have "0 \<le> c" using a by simp
    then have "nat e = 2 * nat c" using c by simp
    then have "(2::int) ^ nat e = 4 ^ nat c" by (simp add: power_mult)
    then show ?thesis using True c by (simp add: x_def h_def)
  next
    case False
    then obtain c where c: "e = 2 * c + 1" by (auto elim: oddE)
    then have c0: "0 \<le> c" using a by simp
    then have "nat e = Suc (2 * nat c)" using c by simp
    then have "(2::int) ^ nat e = 2 * 4 ^ nat c" by (simp add: power_mult)
    moreover have "e div 2 = c" using c by simp
    ultimately show ?thesis using False by (simp add: x_def h_def)
  qed
  have "(1::int) \<le> 4 ^ h" by simp
  then have "x * 1 \<le> x * 4 ^ h" using x0 by (intro mult_left_mono) simp_all
  then have x106: "x \<le> 2 ^ 106" using a X by simp
  have "root_within x (sqrt_round x)"
  proof (cases "x = 2 ^ 106")
    case True
    then show ?thesis by (simp only: sqrt_round_within_top)
  next
    case False
    then have "x < 2 ^ 106" using x106 by simp
    with x0 show ?thesis by (rule sqrt_round_within)
  qed
  then have "root_within (x * 4 ^ h) (PyFloat M (E + int h))"
    unfolding s by (rule root_within_shift)
  moreover have "int h = e div 2" using a by (simp add: h_def)
  ultimately show "root_within (m * 2 ^ nat e) (pow_half_nearest (PyFloat m e))"
    by (simp add: pow_half_nearest_def x_def [symmetric] s X)
qed

subsection \<open>Prime factors\<close>





subsection \<open>A certificate for a prime of 54 bits\<close>










subsection \<open>The true root below \<open>2 ^ 106\<close>, and a prime square above\<close>

lemma is_prime_with_true_root:
  assumes "pow_half_accurate libm" "1 < n" "n < 2 ^ 106"
  shows "is_prime_with libm n = Inr (\<forall>j\<in>{2..isqrt n}. n mod j \<noteq> 0)"
proof -
  obtain r where r: "int_pow_half_with libm n = Inr r" "isqrt n \<le> r" "r < n"
    using root_of_accurate [OF assms] by blast
  have "(\<forall>j\<in>{2..<r + 1}. n mod j \<noteq> 0) \<longleftrightarrow> (\<forall>j\<in>{2..isqrt n}. n mod j \<noteq> 0)"
    using r(2,3) by (rule trial_range)
  moreover have "{2..<r + 1} = {2..r}" by auto
  ultimately show ?thesis using is_prime_with_loop [OF assms(2) r(1)] by simp
qed

lemma is_prime_small:
  assumes "1 < n" "n < 2 ^ 106"
  shows "is_prime n = Inr (\<forall>j\<in>{2..isqrt n}. n mod j \<noteq> 0)"
  unfolding is_prime_def using pow_half_nearest_accurate assms by (rule is_prime_with_true_root)

lemma is_prime_with_agrees:
  assumes "pow_half_accurate libm" "1 < n" "n < 2 ^ 106"
  shows "is_prime_with libm n = is_prime n"
  using is_prime_with_true_root [OF assms] is_prime_small [OF assms(2,3)] by simp




subsection \<open>The interpreter runs the function of the model\<close>

lemma exec_for_loop:
  assumes "l ''n'' = Some (VInt n)"
  shows "(case exec_for libm g ''i''
           [If (Eq (Mod (Name ''n'') (Name ''i'')) (Const (VInt 0)))
              [Return (Const (VBool False))]] [i..stop - 1] l of
            Next l' \<Rightarrow> Returned (VBool True) | other \<Rightarrow> other) =
         (case for_loop n i stop of
            Inl err \<Rightarrow> Raised err
          | Inr b \<Rightarrow> Returned (VBool b))"
  using assms
proof (induction n i stop arbitrary: l rule: for_loop.induct)
  case (1 n i stop)
  define body where "body =
    [If (Eq (Mod (Name ''n'') (Name ''i'')) (Const (VInt 0))) [Return (Const (VBool False))]]"
  have "(case exec_for libm g ''i'' body [i..stop - 1] l of
            Next l' \<Rightarrow> Returned (VBool True) | other \<Rightarrow> other) =
         (case for_loop n i stop of
            Inl err \<Rightarrow> Raised err
          | Inr b \<Rightarrow> Returned (VBool b))"
  proof (cases "i < stop")
    case False
    then show ?thesis by (simp add: for_loop.simps)
  next
    case True
    then have up: "[i..stop - 1] = i # [i + 1..stop - 1]" by (simp add: upto_rec1)
    define l' where "l' = l(''i'' \<mapsto> VInt i)"
    have l'n: "l' ''n'' = Some (VInt n)" using "1.prems" by (simp add: l'_def)
    have l'i: "l' ''i'' = Some (VInt i)" by (simp add: l'_def)
    have unfold: "exec_for libm g ''i'' body [i..stop - 1] l =
        (case exec_block libm g body l' of
           Next l'' \<Rightarrow> exec_for libm g ''i'' body [i + 1..stop - 1] l''
         | other \<Rightarrow> other)"
      by (simp add: up l'_def)
    show ?thesis
    proof (cases "i = 0")
      case True
      have "exec_block libm g body l' = Raised ZeroDivisionError"
        using True l'n l'i by (simp add: body_def py_mod_def on_ints_def)
      moreover have "for_loop n i stop = Inl ZeroDivisionError"
        using True \<open>i < stop\<close> by (subst for_loop.simps) (simp add: py_mod_def)
      ultimately show ?thesis by (simp add: unfold)
    next
      case False
      show ?thesis
      proof (cases "n mod i = 0")
        case True
        have "exec_block libm g body l' = Returned (VBool False)"
          using True False l'n l'i by (simp add: body_def py_mod_def on_ints_def truth_def)
        moreover have "for_loop n i stop = Inr False"
          using True False \<open>i < stop\<close> by (subst for_loop.simps) (simp add: py_mod_def)
        ultimately show ?thesis by (simp add: unfold)
      next
        case nz: False
        have blk: "exec_block libm g body l' = Next l'"
          using nz False l'n l'i by (simp add: body_def py_mod_def on_ints_def truth_def)
        have step: "for_loop n i stop = for_loop n (i + 1) stop"
          using nz False \<open>i < stop\<close> by (subst for_loop.simps) (simp add: py_mod_def)
        have "(case exec_for libm g ''i'' body [i + 1..stop - 1] l' of
                 Next l' \<Rightarrow> Returned (VBool True) | other \<Rightarrow> other) =
              (case for_loop n (i + 1) stop of
                 Inl err \<Rightarrow> Raised err
               | Inr b \<Rightarrow> Returned (VBool b))"
          unfolding body_def
          using "1.IH" [of "n mod i" l'] \<open>i < stop\<close> nz False l'n by (simp add: py_mod_def)
        then show ?thesis by (simp add: unfold blk step)
      qed
    qed
  qed
  then show ?case unfolding body_def .
qed

lemma call_is_prime_eq:
  assumes "g ''int'' = None" "g ''range'' = None"
  shows "call_is_prime libm g n = as_result (is_prime_with libm n)"
proof (cases "n \<le> 1")
  case True
  then show ?thesis
    by (simp add: call_is_prime_def is_prime_body_def is_prime_with_def as_result_def
        on_ints_def truth_def)
next
  case False
  define body where "body =
    [If (Eq (Mod (Name ''n'') (Name ''i'')) (Const (VInt 0))) [Return (Const (VBool False))]]"
  define l where "l = [''n'' \<mapsto> VInt n]"
  have ln: "l ''n'' = Some (VInt n)" by (simp add: l_def)
  show ?thesis
  proof (cases "py_pow_half_with libm n")
    case (Inl err)
    then show ?thesis
      using False assms
      by (simp add: call_is_prime_def is_prime_body_def is_prime_with_def as_result_def
          int_pow_half_with_def on_ints_def truth_def pow_op_def builtin1_def builtin2_def)
  next
    case (Inr w)
    show ?thesis
    proof (cases "py_int w")
      case (Inl err)
      then show ?thesis
        using False assms Inr
        by (simp add: call_is_prime_def is_prime_body_def is_prime_with_def as_result_def
            int_pow_half_with_def on_ints_def truth_def pow_op_def builtin1_def builtin2_def)
    next
      case (Inr r)
      have loop: "(case exec_for libm g ''i'' body [2..r + 1 - 1] l of
            Next l' \<Rightarrow> Returned (VBool True) | other \<Rightarrow> other) =
         (case for_loop n 2 (r + 1) of
            Inl err \<Rightarrow> Raised err
          | Inr b \<Rightarrow> Returned (VBool b))"
        unfolding body_def using ln by (rule exec_for_loop)
      have "exec_block libm g is_prime_body l =
         (case exec_for libm g ''i'' body [2..r + 1 - 1] l of
            Next l' \<Rightarrow> Returned (VBool True) | other \<Rightarrow> other)"
        using False assms \<open>py_pow_half_with libm n = Inr w\<close> Inr
        by (simp add: is_prime_body_def body_def l_def on_ints_def truth_def pow_op_def
            builtin1_def builtin2_def split: flow.split)
      then have "exec_block libm g is_prime_body l =
         (case for_loop n 2 (r + 1) of
            Inl err \<Rightarrow> Raised err
          | Inr b \<Rightarrow> Returned (VBool b))"
        by (simp only: loop)
      then show ?thesis
        using False \<open>py_pow_half_with libm n = Inr w\<close> Inr
        unfolding call_is_prime_def l_def [symmetric]
        by (simp add: is_prime_with_def int_pow_half_with_def as_result_def
            split: sum.split)
    qed
  qed
qed

subsection \<open>The comprehension\<close>

lemma list_comp_filter:
  "(\<And>x. x \<in> set xs \<Longrightarrow> \<exists>b. p x = Inr b) \<Longrightarrow>
   list_comp p xs = Inr (filter (\<lambda>x. p x = Inr True) xs)"
proof (induction xs)
  case Nil
  show ?case by simp
next
  case (Cons x xs)
  obtain b where b: "p x = Inr b" using Cons.prems [of x] by auto
  have "list_comp p xs = Inr (filter (\<lambda>x. p x = Inr True) xs)"
    using Cons.prems by (intro Cons.IH) simp
  then show ?case using b by simp
qed

lemma primes_filter: "primes = Inr (filter (\<lambda>n. is_prime n = Inr True) [1..100])"
proof -
  have "\<exists>b. is_prime x = Inr b" if "x \<in> set [1..100]" for x
  proof (rule is_prime_returns)
    have "(100::int) < 2 ^ 1024 - 2 ^ 970" by simp
    then show "x < 2 ^ 1024 - 2 ^ 970" using that by simp
  qed
  then have "list_comp is_prime [1..100] = Inr (filter (\<lambda>n. is_prime n = Inr True) [1..100])"
    by (rule list_comp_filter)
  then show ?thesis unfolding primes_def py_range_def by simp
qed

lemma primes_value:
  "primes = Inr [2, 3, 5, 7, 11, 13, 17, 19, 23, 29, 31, 37, 41, 43, 47, 53, 59, 61, 67, 71,
     73, 79, 83, 89, 97]"
  by code_simp

section \<open>Properties\<close>

text \<open>
  C3: for every integer \<open>n \<le> 1\<close>, zero and the negative integers included,
  \<open>is_prime n\<close> returns false.
\<close>

theorem is_prime_le_one: "n \<le> 1 \<Longrightarrow> is_prime n = Inr False"
  by (simp add: is_prime_def is_prime_with_def)

theorem is_prime_le_one_witness:
  "(- 7 :: int) \<le> 1 \<and> is_prime (- 7) = Inr False \<and> is_prime 0 = Inr False \<and> is_prime 1 = Inr False"
  using is_prime_le_one [of "- 7"] is_prime_le_one [of 0] is_prime_le_one [of 1] by simp

text \<open>
  C6: the boundary values: \<open>is_prime 1\<close> is false, \<open>is_prime 2\<close> is true, \<open>is_prime 4\<close>
  is false, \<open>is_prime 97\<close> is true and \<open>is_prime 100\<close> is false.
\<close>

theorem is_prime_boundary_values:
  "is_prime 1 = Inr False \<and> is_prime 2 = Inr True \<and> is_prime 4 = Inr False \<and>
   is_prime 97 = Inr True \<and> is_prime 100 = Inr False"
proof -
  have "is_prime 1 = Inr False" by code_simp
  moreover have "is_prime 2 = Inr True" by code_simp
  moreover have "is_prime 4 = Inr False" by code_simp
  moreover have "is_prime 97 = Inr True" by code_simp
  moreover have "is_prime 100 = Inr False" by code_simp
  ultimately show ?thesis by simp
qed

text \<open>
  C2: the enumeration over \<open>1..100\<close>, in scan order, is the list of the 25 primes
  below 100.
\<close>

theorem primes_up_to_100:
  "primes = Inr [2, 3, 5, 7, 11, 13, 17, 19, 23, 29, 31, 37, 41, 43, 47, 53, 59, 61, 67, 71,
     73, 79, 83, 89, 97] \<and>
   length [2, 3, 5, 7, 11, 13, 17, 19, 23, 29, 31, 37, 41, 43, 47, 53, 59, 61, 67, 71,
     73, 79, 83, 89, 97 :: int] = 25"
  using primes_value by simp

text \<open>
  C4: every element of the list produced by the enumeration over \<open>1..100\<close> satisfies
  \<open>is_prime\<close>, and the list is strictly increasing. Both hold by construction: the
  list is what a filter keeps of an increasing range.
\<close>

theorem primes_elements_prime_and_increasing:
  "\<exists>ps. primes = Inr ps \<and> (\<forall>p\<in>set ps. is_prime p = Inr True) \<and> sorted_wrt (<) ps"
proof -
  define ps where "ps = filter (\<lambda>n. is_prime n = Inr True) [1..100]"
  have "primes = Inr ps" by (simp add: ps_def primes_filter)
  moreover have "\<forall>p\<in>set ps. is_prime p = Inr True" by (simp add: ps_def)
  moreover have "sorted_wrt (<) ps"
    unfolding ps_def by (rule sorted_wrt_filter) (rule sorted_wrt_upto)
  ultimately show ?thesis by blast
qed

theorem primes_elements_prime_and_increasing_witness:
  "(97::int) \<in> set [2, 3, 5, 7, 11, 13, 17, 19, 23, 29, 31, 37, 41, 43, 47, 53, 59, 61, 67,
     71, 73, 79, 83, 89, 97] \<and> is_prime 97 = Inr True \<and>
   sorted_wrt (<) [2, 3, 5, 7, 11, 13, 17, 19, 23, 29, 31, 37, 41, 43, 47, 53, 59, 61, 67,
     71, 73, 79, 83, 89, 97 :: int]"
proof -
  obtain ps where ps: "primes = Inr ps" "\<forall>p\<in>set ps. is_prime p = Inr True"
      "sorted_wrt (<) ps"
    using primes_elements_prime_and_increasing by blast
  have eq: "ps = [2, 3, 5, 7, 11, 13, 17, 19, 23, 29, 31, 37, 41, 43, 47, 53, 59, 61, 67,
     71, 73, 79, 83, 89, 97]"
    using ps(1) unfolding primes_value by simp
  have mem: "(97::int) \<in> set [2, 3, 5, 7, 11, 13, 17, 19, 23, 29, 31, 37, 41, 43, 47, 53, 59,
     61, 67, 71, 73, 79, 83, 89, 97]"
    by simp
  with ps(2) have "is_prime 97 = Inr True" unfolding eq by (rule bspec)
  with mem ps(3) show ?thesis unfolding eq by blast
qed

text \<open>
  C5: run from any state of the standard output, the program appends exactly one line
  to it, the label followed by the list of the 25 primes as Python prints a list, and
  writes nothing else.
\<close>

theorem main_prints_one_line:
  "main w = Inr (w\<lparr>stdout := stdout w @
      ''Numerele prime p'' @ [CHR 0xC3, CHR 0xA2] @ ''n'' @ [CHR 0xC4, CHR 0x83] @
      '' la 100 sunt: [2, 3, 5, 7, 11, 13, 17, 19, 23, 29, 31, 37, 41, 43, 47, 53, 59, 61, 67, 71, 73, 79, 83, 89, 97]'' @
      [CHR 0x0A]\<rparr>) \<and>
   count_list (''Numerele prime p'' @ [CHR 0xC3, CHR 0xA2] @ ''n'' @ [CHR 0xC4, CHR 0x83] @
      '' la 100 sunt: [2, 3, 5, 7, 11, 13, 17, 19, 23, 29, 31, 37, 41, 43, 47, 53, 59, 61, 67, 71, 73, 79, 83, 89, 97]'' @
      [CHR 0x0A]) (CHR 0x0A) = 1"
proof -
  have repr: "py_repr_list [2, 3, 5, 7, 11, 13, 17, 19, 23, 29, 31, 37, 41, 43, 47, 53, 59, 61,
      67, 71, 73, 79, 83, 89, 97] =
    ''[2, 3, 5, 7, 11, 13, 17, 19, 23, 29, 31, 37, 41, 43, 47, 53, 59, 61, 67, 71, 73, 79, 83, 89, 97]''"
    by code_simp
  have "main w = Inr (w\<lparr>stdout := stdout w @
      ''Numerele prime p'' @ [CHR 0xC3, CHR 0xA2] @ ''n'' @ [CHR 0xC4, CHR 0x83] @
      '' la 100 sunt: [2, 3, 5, 7, 11, 13, 17, 19, 23, 29, 31, 37, 41, 43, 47, 53, 59, 61, 67, 71, 73, 79, 83, 89, 97]'' @
      [CHR 0x0A]\<rparr>)"
    unfolding main_def primes_value py_print_def label_def by (simp add: repr)
  moreover have "count_list (''Numerele prime p'' @ [CHR 0xC3, CHR 0xA2] @ ''n'' @ [CHR 0xC4, CHR 0x83] @
      '' la 100 sunt: [2, 3, 5, 7, 11, 13, 17, 19, 23, 29, 31, 37, 41, 43, 47, 53, 59, 61, 67, 71, 73, 79, 83, 89, 97]'' @
      [CHR 0x0A]) (CHR 0x0A) = 1"
    by simp
  ultimately show ?thesis by (rule conjI)
qed

text \<open>
  C8: two calls of \<^verbatim>\<open>is_prime\<close> on the same \<open>n\<close> return the same, whatever the
  names of the module hold at either call: the body reads the local names \<open>n\<close> and
  \<open>i\<close> only, and the builtins \<^verbatim>\<open>int\<close> and \<^verbatim>\<open>range\<close>, which the program never
  rebinds. The body has no statement that writes a name of the module or a stream, so
  that a call leaves nothing behind for the next one. What a call returns is what the
  function of the model says.
\<close>

theorem is_prime_deterministic:
  assumes "g ''int'' = None" "g ''range'' = None" "g' ''int'' = None" "g' ''range'' = None"
  shows "call_is_prime libm g n = call_is_prime libm g' n \<and>
         call_is_prime libm g n = as_result (is_prime_with libm n)"
  using assms by (simp add: call_is_prime_eq)

theorem is_prime_deterministic_witness:
  "Map.empty ''int'' = (None :: py_val option) \<and> Map.empty ''range'' = (None :: py_val option) \<and>
   [''n'' \<mapsto> VInt 4, ''i'' \<mapsto> VInt 0] ''int'' = None \<and>
   [''n'' \<mapsto> VInt 4, ''i'' \<mapsto> VInt 0] ''range'' = None \<and>
   call_is_prime pow_half_nearest Map.empty 97 = Ok (VBool True) \<and>
   call_is_prime pow_half_nearest [''n'' \<mapsto> VInt 4, ''i'' \<mapsto> VInt 0] 97 = Ok (VBool True)"
proof -
  have a: "call_is_prime pow_half_nearest Map.empty 97 = Ok (VBool True)" by code_simp
  have h: "[''n'' \<mapsto> VInt 4, ''i'' \<mapsto> VInt 0] ''int'' = None"
    "[''n'' \<mapsto> VInt 4, ''i'' \<mapsto> VInt 0] ''range'' = None"
    by simp_all
  have "call_is_prime pow_half_nearest Map.empty 97 =
      call_is_prime pow_half_nearest [''n'' \<mapsto> VInt 4, ''i'' \<mapsto> VInt 0] 97"
    using is_prime_deterministic [of Map.empty "[''n'' \<mapsto> VInt 4, ''i'' \<mapsto> VInt 0]"
        pow_half_nearest 97] h
    by simp
  then show ?thesis using a h by simp
qed

text \<open>
  C9: for \<open>1 \<le> n \<le> 100\<close>, \<open>is_prime n\<close> is true exactly when \<open>n\<close> is a prime number
  in the sense of the reference definition.
\<close>

theorem is_prime_agrees_with_prime_number:
  assumes "1 \<le> n" "n \<le> 100"
  shows "is_prime n = Inr (prime_number n)"
proof (cases "n = 1")
  case True
  then show ?thesis by (simp add: is_prime_def is_prime_with_def prime_number_def)
next
  case False
  then have n: "1 < n" "2 \<le> n" using assms(1) by simp_all
  have "n < 2 ^ 106" using assms(2) by simp
  then show ?thesis using is_prime_small [OF n(1)] prime_number_iff [OF n(2)] by simp
qed

theorem is_prime_agrees_with_prime_number_witness:
  "(1::int) \<le> 97 \<and> (97::int) \<le> 100 \<and> is_prime 97 = Inr True \<and> prime_number 97 \<and>
   (1::int) \<le> 91 \<and> (91::int) \<le> 100 \<and> is_prime 91 = Inr False \<and> \<not> prime_number 91"
proof -
  have a: "is_prime 97 = Inr True" by code_simp
  have b: "is_prime 91 = Inr False" by code_simp
  have "prime_number 97"
    using is_prime_agrees_with_prime_number [of 97] a by simp
  moreover have "\<not> prime_number 91"
    using is_prime_agrees_with_prime_number [of 91] b by simp
  ultimately show ?thesis using a b by simp
qed




text \<open>
  C7, as the code has it: \<open>is_prime\<close> is not total. At \<open>10^400\<close> the conversion of
  \<open>n\<close> to a double raises \<open>OverflowError\<close>, and no boolean is returned.
\<close>

theorem is_prime_not_total_counterexample:
  "is_prime (10 ^ 400) = Inl OverflowError \<and> is_prime (10 ^ 400) \<noteq> Inr True \<and>
   is_prime (10 ^ 400) \<noteq> Inr False"
proof -
  have "is_prime (10 ^ 400) = Inl OverflowError" by code_simp
  then show ?thesis by simp
qed

text \<open>
  C7, amended. For every integer \<open>n < 2^1024 - 2^970\<close>, zero and the negative numbers
  included, \<open>is_prime n\<close> returns a boolean without raising; the branch \<open>n \<le> 1\<close>
  answers false for zero and the negative numbers, so that the fractional power of a
  negative number is never taken: \<open>TypeError\<close> and \<open>ZeroDivisionError\<close> are raised for
  no \<open>n\<close>. From \<open>2^1024 - 2^970\<close> on, \<open>is_prime n\<close> raises \<open>OverflowError\<close>.
\<close>

theorem is_prime_total_below_overflow:
  "(n < 2 ^ 1024 - 2 ^ 970 \<longrightarrow> (\<exists>b. is_prime n = Inr b)) \<and>
   (n \<le> 1 \<longrightarrow> is_prime n = Inr False) \<and>
   (2 ^ 1024 - 2 ^ 970 \<le> n \<longrightarrow> is_prime n = Inl OverflowError) \<and>
   is_prime n \<noteq> Inl TypeError \<and> is_prime n \<noteq> Inl ZeroDivisionError"
proof -
  have ret: "\<exists>b. is_prime n = Inr b" if "n < 2 ^ 1024 - 2 ^ 970"
    using that by (rule is_prime_returns)
  have ovf: "is_prime n = Inl OverflowError" if "2 ^ 1024 - 2 ^ 970 \<le> n"
    using that by (rule is_prime_overflow)
  have "is_prime n \<noteq> Inl TypeError \<and> is_prime n \<noteq> Inl ZeroDivisionError"
  proof (cases "n < 2 ^ 1024 - 2 ^ 970")
    case True
    then obtain b where "is_prime n = Inr b" using ret by blast
    then show ?thesis by simp
  next
    case False
    then have "is_prime n = Inl OverflowError" using ovf by simp
    then show ?thesis by simp
  qed
  then show ?thesis using ret ovf by (simp add: is_prime_def is_prime_with_def)
qed

theorem is_prime_total_below_overflow_witness:
  "(- 4 :: int) < 2 ^ 1024 - 2 ^ 970 \<and> (- 4 :: int) \<le> 1 \<and> is_prime (- 4) = Inr False \<and>
   (2 ^ 1024 - 2 ^ 970 - 1 :: int) < 2 ^ 1024 - 2 ^ 970 \<and>
   is_prime (2 ^ 1024 - 2 ^ 970 - 1) \<noteq> Inl OverflowError \<and>
   (2 ^ 1024 - 2 ^ 970 :: int) \<le> 2 ^ 1024 - 2 ^ 970 \<and>
   is_prime (2 ^ 1024 - 2 ^ 970) = Inl OverflowError"
proof -
  have "is_prime (- 4) = Inr False"
    using is_prime_total_below_overflow [of "- 4"] by simp
  moreover have "\<exists>b. is_prime (2 ^ 1024 - 2 ^ 970 - 1) = Inr b"
    using is_prime_total_below_overflow [of "2 ^ 1024 - 2 ^ 970 - 1"] by simp
  then have "is_prime (2 ^ 1024 - 2 ^ 970 - 1) \<noteq> Inl OverflowError" by auto
  moreover have "is_prime (2 ^ 1024 - 2 ^ 970) = Inl OverflowError"
    using is_prime_total_below_overflow [of "2 ^ 1024 - 2 ^ 970"] by simp
  ultimately show ?thesis by simp
qed

text \<open>
  C10, as the code has it: at \<open>2^1024 - 2^970\<close>, the least integer that does not fit a
  double, the bound \<open>int(n**0.5)\<close> of the range has no value, and \<open>is_prime\<close> ends by
  raising \<open>OverflowError\<close> rather than by returning.
\<close>

theorem is_prime_no_return_counterexample:
  "int_pow_half (2 ^ 1024 - 2 ^ 970) = Inl OverflowError \<and>
   is_prime (2 ^ 1024 - 2 ^ 970) = Inl OverflowError"
proof -
  have "int_pow_half (2 ^ 1024 - 2 ^ 970) = Inl OverflowError"
    by (rule int_pow_half_overflow) simp
  moreover have "is_prime (2 ^ 1024 - 2 ^ 970) = Inl OverflowError"
    by (rule is_prime_overflow) simp
  ultimately show ?thesis by (rule conjI)
qed

text \<open>
  C10, amended. \<open>is_prime\<close> ends for every integer input. For \<open>n \<le> 1\<close> it returns
  before the loop. For \<open>1 < n < 2^1024 - 2^970\<close> the bound \<open>r = int(n**0.5)\<close> has a
  value, the body of the loop over \<open>range(2, r + 1)\<close> runs at most \<open>r - 1\<close> times (not
  at all when \<open>r < 2\<close>), and the function returns a boolean. From \<open>2^1024 - 2^970\<close> on
  it ends by raising \<open>OverflowError\<close> before the loop is entered.
\<close>

theorem is_prime_terminates:
  "(n \<le> 1 \<longrightarrow> is_prime n = Inr False) \<and>
   (1 < n \<and> n < 2 ^ 1024 - 2 ^ 970 \<longrightarrow>
      (\<exists>r b. int_pow_half n = Inr r \<and> is_prime n = Inr b \<and>
         for_loop_iterations n 2 (r + 1) \<le> nat (r - 1))) \<and>
   (2 ^ 1024 - 2 ^ 970 \<le> n \<longrightarrow>
      int_pow_half n = Inl OverflowError \<and> is_prime n = Inl OverflowError)"
proof (intro conjI impI)
  assume "n \<le> 1"
  then show "is_prime n = Inr False" by (simp add: is_prime_def is_prime_with_def)
next
  assume a: "1 < n \<and> n < 2 ^ 1024 - 2 ^ 970"
  then have "0 < n" by simp
  then obtain r where r: "int_pow_half n = Inr r"
    using int_pow_half_finite a by blast
  obtain b where b: "is_prime n = Inr b"
    using is_prime_returns a by blast
  have "for_loop_iterations n 2 (r + 1) \<le> nat (r + 1 - 2)"
    by (rule for_loop_iterations_le)
  then have "for_loop_iterations n 2 (r + 1) \<le> nat (r - 1)" by simp
  with r b show "\<exists>r b. int_pow_half n = Inr r \<and> is_prime n = Inr b \<and>
      for_loop_iterations n 2 (r + 1) \<le> nat (r - 1)"
    by blast
next
  assume "2 ^ 1024 - 2 ^ 970 \<le> n"
  then show "int_pow_half n = Inl OverflowError" by (rule int_pow_half_overflow)
next
  assume "2 ^ 1024 - 2 ^ 970 \<le> n"
  then show "is_prime n = Inl OverflowError" by (rule is_prime_overflow)
qed

theorem is_prime_terminates_witness:
  "(1::int) < 97 \<and> (97::int) < 2 ^ 1024 - 2 ^ 970 \<and> int_pow_half 97 = Inr 9 \<and>
   is_prime 97 = Inr True \<and> for_loop_iterations 97 2 (9 + 1) \<le> nat (9 - 1) \<and>
   (0::int) \<le> 1 \<and> is_prime 0 = Inr False \<and>
   (2::int) ^ 1024 - 2 ^ 970 \<le> 2 ^ 2000 \<and> is_prime (2 ^ 2000) = Inl OverflowError"
proof -
  have r: "int_pow_half 97 = Inr 9" by code_simp
  have p: "is_prime 97 = Inr True" by code_simp
  have hyp: "(1::int) < 97 \<and> (97::int) < 2 ^ 1024 - 2 ^ 970" by simp
  have "\<exists>r b. int_pow_half 97 = Inr r \<and> is_prime 97 = Inr b \<and>
      for_loop_iterations 97 2 (r + 1) \<le> nat (r - 1)"
    using is_prime_terminates [of 97] hyp by blast
  then have it: "for_loop_iterations 97 2 (9 + 1) \<le> nat (9 - 1)" unfolding r by auto
  have z: "is_prime 0 = Inr False" using is_prime_terminates [of 0] by simp
  have above: "(2::int) ^ 1024 - 2 ^ 970 \<le> 2 ^ 2000" by simp
  then have o: "is_prime (2 ^ 2000) = Inl OverflowError"
    using is_prime_terminates [of "2 ^ 2000"] by blast
  show ?thesis using r p hyp it z above o by simp
qed

end
